theory Spec2Isabelle
  imports Main "HOL-Library.Word" "HOL-Library.Monad_Syntax"
begin

unbundle bit_operations_syntax

section \<open>The bit-banged bus of the SST25V flash driver (SST25V.h)\<close>

text \<open>
  The CCS compiler's integer types are unsigned: \<open>int8\<close>, \<open>int16\<close> and \<open>int32\<close>.
\<close>

type_synonym int8 = "8 word"
type_synonym int16 = "16 word"
type_synonym int32 = "32 word"

text \<open>
  The three lines the driver drives. The fourth line, \<open>FLASH_DO\<close>, is only read.
\<close>

datatype pin = FLASH_SELECT | FLASH_CLOCK | FLASH_DI

text \<open>
  Everything the driver does to the outside world, in the order it does it: it drives a
  line, it samples \<open>FLASH_DO\<close> (the event records the level it saw), or it waits.
\<close>

datatype event =
    Output pin bool
  | Input bool
  | Delay_cycles nat
  | Delay_us nat

text \<open>
  The state of the bus as the driver sees it: the level of each driven line, how many
  times \<open>FLASH_DO\<close> has been sampled so far, and the events so far (oldest first).
\<close>

record bus =
  select_pin :: bool
  clock_pin :: bool
  di_pin :: bool
  samples :: nat
  trace :: "event list"

text \<open>
  What the driver cannot control: \<open>data_out k\<close> is the level of \<open>FLASH_DO\<close> at the
  \<open>k\<close>-th sampling, and \<open>stale k\<close> is what the RAM cell of the uninitialised local
  \<open>flashData\<close> holds when \<open>STFlash_GetByte\<close> is entered after \<open>k\<close> samplings.
\<close>

record device =
  data_out :: "nat \<Rightarrow> bool"
  stale :: "nat \<Rightarrow> int8"

definition SCLKDELAY :: nat where
  "SCLKDELAY = 2"

definition SELSDELAY :: nat where
  "SELSDELAY = 1"

definition emit :: "event \<Rightarrow> bus \<Rightarrow> bus" where
  "emit e s = s\<lparr>trace := trace s @ [e]\<rparr>"

definition output_bit :: "pin \<Rightarrow> bool \<Rightarrow> bus \<Rightarrow> bus" where
  "output_bit p v s =
     emit (Output p v)
       (case p of
          FLASH_SELECT \<Rightarrow> s\<lparr>select_pin := v\<rparr>
        | FLASH_CLOCK \<Rightarrow> s\<lparr>clock_pin := v\<rparr>
        | FLASH_DI \<Rightarrow> s\<lparr>di_pin := v\<rparr>)"

definition output_high :: "pin \<Rightarrow> bus \<Rightarrow> bus" where
  "output_high p s = output_bit p True s"

definition output_low :: "pin \<Rightarrow> bus \<Rightarrow> bus" where
  "output_low p s = output_bit p False s"

definition delay_cycles :: "nat \<Rightarrow> bus \<Rightarrow> bus" where
  "delay_cycles n s = emit (Delay_cycles n) s"

definition delay_us :: "nat \<Rightarrow> bus \<Rightarrow> bus" where
  "delay_us n s = emit (Delay_us n) s"

text \<open>
  \<open>input(FLASH_DO)\<close>: the level read, and the bus with one more sampling.
\<close>

definition input_DO :: "device \<Rightarrow> bus \<Rightarrow> bool \<times> bus" where
  "input_DO dev s =
     (data_out dev (samples s),
      emit (Input (data_out dev (samples s))) (s\<lparr>samples := Suc (samples s)\<rparr>))"

text \<open>
  Modelled from the spec: the compiler built-in \<open>shift_left(address, 1, value)\<close> is not
  defined in the source. On one byte it shifts the byte left by one bit, puts \<open>value\<close> into
  bit 0 and returns the bit shifted out of bit 7 (the spec: bits travel most-significant
  first in both directions). The result is the bit shifted out and the new byte.
\<close>

definition shift_left :: "int8 \<Rightarrow> bool \<Rightarrow> bool \<times> int8" where
  "shift_left d v = (bit d 7, push_bit 1 d OR of_bool v)"

text \<open>
  Modelled from the spec: the compiler built-in \<open>Make8(var, offset)\<close> is not defined in the
  source. It is byte \<open>offset\<close> of \<open>var\<close>, byte 0 the least significant (the spec: byte2,
  byte1, byte0 of the address).
\<close>

definition Make8 :: "int32 \<Rightarrow> nat \<Rightarrow> int8" where
  "Make8 var offset = ucast (drop_bit (8 * offset) var)"

subsection \<open>Bus primitive layer\<close>

definition chip_select :: "bus \<Rightarrow> bus" where
  "chip_select s =
     delay_us SELSDELAY (output_low FLASH_SELECT (output_low FLASH_CLOCK s))"

definition chip_deselect :: "bus \<Rightarrow> bus" where
  "chip_deselect s =
     delay_us SELSDELAY (output_low FLASH_CLOCK (output_high FLASH_SELECT s))"

text \<open>
  The loop of \<open>STFlash_SendByte\<close>, from the value \<open>i\<close> of its counter on. The
  counter is an \<open>int8\<close> that runs from 0 to 8 and cannot wrap, so it is a natural number
  here; so are the counters of the other loops (an \<open>int16\<close> below a 16-bit size).
\<close>

function SendByte_loop :: "nat \<Rightarrow> int8 \<Rightarrow> bus \<Rightarrow> bus" where
  "SendByte_loop i data s =
     (if i < 8 then
        (let (b, data') = shift_left data False;
             s1 = output_bit FLASH_DI b s;
             s2 = output_high FLASH_CLOCK s1;
             s3 = delay_cycles SCLKDELAY s2;
             s4 = output_low FLASH_CLOCK s3;
             s5 = delay_cycles SCLKDELAY s4
         in SendByte_loop (i + 1) data' s5)
      else s)"
  by pat_completeness auto
termination
  by (relation "measure (\<lambda>(i, data, s). 8 - i)") simp_all

declare SendByte_loop.simps [simp del]

definition STFlash_SendByte :: "int8 \<Rightarrow> bus \<Rightarrow> bus" where
  "STFlash_SendByte data s = SendByte_loop 0 data s"

text \<open>
  The loop of \<open>STFlash_GetByte\<close>: \<open>flashData\<close> is the accumulator, which the source
  never initialises.
\<close>

function GetByte_loop :: "device \<Rightarrow> nat \<Rightarrow> int8 \<Rightarrow> bus \<Rightarrow> int8 \<times> bus" where
  "GetByte_loop dev i flashData s =
     (if i < 8 then
        (let s1 = output_high FLASH_CLOCK s;
             s2 = delay_cycles SCLKDELAY s1;
             (v, s3) = input_DO dev s2;
             (_, flashData') = shift_left flashData v;
             s4 = output_low FLASH_CLOCK s3;
             s5 = delay_cycles SCLKDELAY s4
         in GetByte_loop dev (i + 1) flashData' s5)
      else (flashData, s))"
  by pat_completeness auto
termination
  by (relation "measure (\<lambda>(dev, i, flashData, s). 8 - i)") simp_all

declare GetByte_loop.simps [simp del]

definition STFlash_GetByte :: "device \<Rightarrow> bus \<Rightarrow> int8 \<times> bus" where
  "STFlash_GetByte dev s = GetByte_loop dev 0 (stale dev (samples s)) s"

text \<open>
  \<open>STFlash_getBytes(data, size)\<close>: the buffer \<open>data\<close> is the memory from the pointer on,
  cell \<open>i\<close> being \<open>data[i]\<close>. The inner loop shifts eight sampled bits into cell \<open>i\<close>.
\<close>

function getBytes_inner :: "device \<Rightarrow> nat \<Rightarrow> nat \<Rightarrow> (nat \<Rightarrow> int8) \<Rightarrow> bus \<Rightarrow> (nat \<Rightarrow> int8) \<times> bus" where
  "getBytes_inner dev i j data s =
     (if j < 8 then
        (let s1 = output_high FLASH_CLOCK s;
             s2 = delay_cycles SCLKDELAY s1;
             (v, s3) = input_DO dev s2;
             (_, d) = shift_left (data i) v;
             s4 = output_low FLASH_CLOCK s3;
             s5 = delay_cycles SCLKDELAY s4
         in getBytes_inner dev i (j + 1) (data(i := d)) s5)
      else (data, s))"
  by pat_completeness auto
termination
  by (relation "measure (\<lambda>(dev, i, j, data, s). 8 - j)") simp_all

declare getBytes_inner.simps [simp del]

function getBytes_loop :: "device \<Rightarrow> nat \<Rightarrow> int16 \<Rightarrow> (nat \<Rightarrow> int8) \<Rightarrow> bus \<Rightarrow> (nat \<Rightarrow> int8) \<times> bus" where
  "getBytes_loop dev i sz data s =
     (if i < unat sz then
        (let (data', s') = getBytes_inner dev i 0 data s
         in getBytes_loop dev (i + 1) sz data' s')
      else (data, s))"
  by pat_completeness auto
termination
  by (relation "measure (\<lambda>(dev, i, sz, data, s). unat sz - i)") simp_all

declare getBytes_loop.simps [simp del]

definition STFlash_getBytes :: "device \<Rightarrow> (nat \<Rightarrow> int8) \<Rightarrow> int16 \<Rightarrow> bus \<Rightarrow> (nat \<Rightarrow> int8) \<times> bus" where
  "STFlash_getBytes dev data sz s = getBytes_loop dev 0 sz data s"

subsection \<open>Command layer\<close>

definition STFlash_readStatus :: "device \<Rightarrow> bus \<Rightarrow> int8 \<times> bus" where
  "STFlash_readStatus dev s =
     (let s1 = chip_select s;
          s2 = STFlash_SendByte 0x05 s1;
          (status, s3) = STFlash_GetByte dev s2;
          s4 = chip_deselect s3
      in (status, s4))"

text \<open>
  \<open>while(input(FLASH_DO));\<close> in \<open>STFlash_waitUntilReady\<close>: the loop samples the line until
  it reads low. It has no bound, so not returning is the value \<open>None\<close>.
\<close>

partial_function (option) waitUntilReady_spin :: "device \<Rightarrow> bus \<Rightarrow> bus option" where
  "waitUntilReady_spin dev s =
     (case input_DO dev s of (v, s') \<Rightarrow>
        if v then waitUntilReady_spin dev s' else Some s')"

declare waitUntilReady_spin.simps [code]

definition STFlash_waitUntilReady :: "device \<Rightarrow> bus \<Rightarrow> bus option" where
  "STFlash_waitUntilReady dev s =
     (let s1 = chip_select s;
          s2 = STFlash_SendByte 0x05 s1
      in case waitUntilReady_spin dev s2 of
           None \<Rightarrow> None
         | Some s3 \<Rightarrow>
             (let (_, s4) = STFlash_GetByte dev s3
              in Some (chip_deselect s4)))"

definition STFlash_WriteEnable :: "bus \<Rightarrow> bus" where
  "STFlash_WriteEnable s =
     chip_deselect (STFlash_SendByte 0x06 (chip_select s))"

definition STFlash_WriteDisable :: "bus \<Rightarrow> bus" where
  "STFlash_WriteDisable s =
     chip_deselect (STFlash_SendByte 0x04 (chip_select s))"

definition STFlash_writeStatus :: "int8 \<Rightarrow> bus \<Rightarrow> bus" where
  "STFlash_writeStatus v s =
     (let s1 = STFlash_WriteEnable s;
          s2 = chip_select s1;
          s3 = STFlash_SendByte 0x01 s2;
          s4 = STFlash_SendByte v s3;
          s5 = chip_deselect s4
      in STFlash_WriteDisable s5)"

definition STFlash_ReadBlock ::
  "device \<Rightarrow> int32 \<Rightarrow> (nat \<Rightarrow> int8) \<Rightarrow> int16 \<Rightarrow> bus \<Rightarrow> (nat \<Rightarrow> int8) \<times> bus" where
  "STFlash_ReadBlock dev Address buffer sz s =
     (let s1 = chip_select s;
          s2 = STFlash_SendByte 0x03 s1;
          s3 = STFlash_SendByte (Make8 Address 2) s2;
          s4 = STFlash_SendByte (Make8 Address 1) s3;
          s5 = STFlash_SendByte (Make8 Address 0) s4;
          (buffer', s6) = STFlash_getBytes dev buffer sz s5
      in (buffer', chip_deselect s6))"

definition STFlash_Write1Byte :: "int32 \<Rightarrow> int8 \<Rightarrow> bus \<Rightarrow> bus" where
  "STFlash_Write1Byte Address data s =
     (let s1 = STFlash_WriteEnable s;
          s2 = chip_select s1;
          s3 = STFlash_SendByte 0x02 s2;
          s4 = STFlash_SendByte (Make8 Address 2) s3;
          s5 = STFlash_SendByte (Make8 Address 1) s4;
          s6 = STFlash_SendByte (Make8 Address 0) s5;
          s7 = STFlash_SendByte data s6
      in chip_deselect s7)"

text \<open>
  \<open>while(STFlash_readStatus() & 0x01);\<close> in \<open>STFlash_WriteBlock\<close>: the loop reads the
  status until bit 0 is clear, with no bound.
\<close>

partial_function (option) WriteBlock_poll :: "device \<Rightarrow> bus \<Rightarrow> bus option" where
  "WriteBlock_poll dev s =
     (case STFlash_readStatus dev s of (status, s') \<Rightarrow>
        if status AND 0x01 \<noteq> 0 then WriteBlock_poll dev s' else Some s')"

declare WriteBlock_poll.simps [code]

text \<open>
  The \<open>for\<close> loop of \<open>STFlash_WriteBlock\<close>, from the value \<open>i\<close> of its counter on.
  \<open>Address + i\<close> is a 32-bit sum; \<open>buffer i\<close> is \<open>buffer[i]\<close>.
\<close>

partial_function (option) WriteBlock_loop ::
  "device \<Rightarrow> nat \<Rightarrow> int32 \<Rightarrow> (nat \<Rightarrow> int8) \<Rightarrow> int16 \<Rightarrow> bus \<Rightarrow> bus option" where
  "WriteBlock_loop dev i Address buffer sz s =
     (if i < unat sz then
        (case WriteBlock_poll dev
                (delay_us 10 (STFlash_Write1Byte (Address + of_nat i) (buffer i) s)) of
           None \<Rightarrow> None
         | Some s' \<Rightarrow> WriteBlock_loop dev (i + 1) Address buffer sz s')
      else Some s)"

declare WriteBlock_loop.simps [code]

definition STFlash_WriteBlock ::
  "device \<Rightarrow> int32 \<Rightarrow> (nat \<Rightarrow> int8) \<Rightarrow> int16 \<Rightarrow> bus \<Rightarrow> bus option" where
  "STFlash_WriteBlock dev Address buffer sz s =
     (case WriteBlock_loop dev 0 Address buffer sz s of
        None \<Rightarrow> None
      | Some s' \<Rightarrow> Some (STFlash_WriteDisable s'))"

definition STFlash_EraseBlock :: "int32 \<Rightarrow> bus \<Rightarrow> bus" where
  "STFlash_EraseBlock Address s =
     (let s1 = STFlash_WriteEnable s;
          s2 = chip_select s1;
          s3 = STFlash_SendByte 0xD8 s2;
          s4 = STFlash_SendByte (Make8 Address 2) s3;
          s5 = STFlash_SendByte (Make8 Address 1) s4;
          s6 = STFlash_SendByte (Make8 Address 0) s5;
          s7 = output_high FLASH_SELECT s6;
          s8 = chip_deselect s7
      in STFlash_WriteDisable s8)"

section \<open>Observing the bus\<close>

text \<open>
  The events of one call: what the trace has gained from \<open>s\<close> to
  \<open>s'\<close>.
\<close>

definition emitted :: "bus \<Rightarrow> bus \<Rightarrow> event list" where
  "emitted s s' = drop (length (trace s)) (trace s')"

text \<open>The eight bits of a byte in the order of the wire, bit 7 first.\<close>

definition byte_bits :: "int8 \<Rightarrow> bool list" where
  "byte_bits v = map (bit v) [7, 6, 5, 4, 3, 2, 1, 0]"

text \<open>
  The number that a sequence of bits spells, the first bit the most significant.
\<close>

definition bits_value :: "bool list \<Rightarrow> nat" where
  "bits_value bs = foldl (\<lambda>n b. 2 * n + of_bool b) 0 bs"

text \<open>
  The edges of the select line in a sequence of events, from the level \<open>lvl\<close> on:
  \<open>False\<close> is a falling edge (the device is selected), \<open>True\<close> a rising edge
  (deselected). Driving the line to the level it already has is no edge.
\<close>

fun select_edges :: "bool \<Rightarrow> event list \<Rightarrow> bool list" where
  "select_edges lvl [] = []"
| "select_edges lvl (Output FLASH_SELECT v # es) =
     (if v = lvl then select_edges lvl es else v # select_edges v es)"
| "select_edges lvl (e # es) = select_edges lvl es"

text \<open>
  A probe on the bus, as the device sees it: the levels of the three driven lines, the
  bits clocked in since the select line fell (the level of \<open>FLASH_DI\<close> at each rising edge
  of the clock while selected), and the frames closed so far by a rising select line.
\<close>

record probe =
  sel :: bool
  clk :: bool
  mosi :: bool
  bits :: "bool list"
  closed :: "bool list list"

fun probe_step :: "event \<Rightarrow> probe \<Rightarrow> probe" where
  "probe_step (Output FLASH_SELECT v) p =
     (if v = sel p then p
      else if v then p\<lparr>sel := True, bits := [], closed := closed p @ [bits p]\<rparr>
      else p\<lparr>sel := False, bits := []\<rparr>)"
| "probe_step (Output FLASH_CLOCK v) p =
     (if v \<and> \<not> clk p \<and> \<not> sel p then p\<lparr>clk := v, bits := bits p @ [mosi p]\<rparr>
      else p\<lparr>clk := v\<rparr>)"
| "probe_step (Output FLASH_DI v) p = p\<lparr>mosi := v\<rparr>"
| "probe_step e p = p"

definition probe_run :: "event list \<Rightarrow> probe \<Rightarrow> probe" where
  "probe_run es p = fold probe_step es p"

text \<open>
  The probe attached to a bus in state \<open>s\<close>, with nothing seen yet.
\<close>

definition probe_of :: "bus \<Rightarrow> probe" where
  "probe_of s =
     \<lparr>sel = select_pin s, clk = clock_pin s, mosi = di_pin s, bits = [], closed = []\<rparr>"

text \<open>
  The frames that the probe sees from \<open>s\<close> to \<open>s'\<close>: one per
  select-to-deselect.
\<close>

definition frames :: "bus \<Rightarrow> bus \<Rightarrow> bool list list" where
  "frames s s' = closed (probe_run (emitted s s') (probe_of s))"

text \<open>
  A bus at rest on which nothing has happened yet: the select line inactive (high) and the
  clock low, as \<open>Init_STFlash\<close> leaves them.
\<close>

definition fresh :: bus where
  "fresh = \<lparr>select_pin = True, clock_pin = False, di_pin = False, samples = 0, trace = []\<rparr>"

section \<open>Descriptions of the traffic on the bus\<close>

text \<open>
  The events of one bit sent: drive \<open>FLASH_DI\<close>, pulse the clock.
\<close>

definition send_cell :: "bool \<Rightarrow> event list" where
  "send_cell b =
     [Output FLASH_DI b, Output FLASH_CLOCK True, Delay_cycles 2,
      Output FLASH_CLOCK False, Delay_cycles 2]"

text \<open>
  The events of one bit received: raise the clock, sample \<open>FLASH_DO\<close> (the
  level read is \<open>b\<close>), lower the clock.
\<close>

definition recv_cell :: "bool \<Rightarrow> event list" where
  "recv_cell b =
     [Output FLASH_CLOCK True, Delay_cycles 2, Input b,
      Output FLASH_CLOCK False, Delay_cycles 2]"

text \<open>
  Sending a sequence of bits, one \<open>send_cell\<close> each: what the loop of
  \<open>STFlash_SendByte\<close> does for the bits still to send.
\<close>

fun send_bits :: "bool list \<Rightarrow> bus \<Rightarrow> bus" where
  "send_bits [] s = s"
| "send_bits (b # bs) s =
     send_bits bs
       (delay_cycles 2 (output_bit FLASH_CLOCK False (delay_cycles 2
          (output_bit FLASH_CLOCK True (output_bit FLASH_DI b s)))))"

text \<open>
  Shifting a sequence of bits into a byte from the right, one \<open>shift_left\<close>
  each.
\<close>

definition shift_in :: "int8 \<Rightarrow> bool list \<Rightarrow> int8" where
  "shift_in acc bs = foldl (\<lambda>w b. push_bit 1 w OR of_bool b) acc bs"

text \<open>
  \<open>n\<close> clock pulses with a sampling of \<open>FLASH_DO\<close> in each: what
  the loops of \<open>STFlash_GetByte\<close> and \<open>STFlash_getBytes\<close> do to
  the bus.
\<close>

fun clock_in :: "device \<Rightarrow> nat \<Rightarrow> bus \<Rightarrow> bus" where
  "clock_in dev 0 s = s"
| "clock_in dev (Suc n) s =
     clock_in dev n
       (delay_cycles 2 (output_bit FLASH_CLOCK False
          (snd (input_DO dev (delay_cycles 2 (output_bit FLASH_CLOCK True s))))))"

text \<open>
  The levels of \<open>FLASH_DO\<close> at the samplings
  \<open>k, \<dots>, k + n - 1\<close>.
\<close>

definition sampled :: "device \<Rightarrow> nat \<Rightarrow> nat \<Rightarrow> bool list" where
  "sampled dev k n = map (data_out dev) [k..<k + n]"

text \<open>
  The events of \<open>chip_select\<close> and of \<open>chip_deselect\<close>.
\<close>

definition select_events :: "event list" where
  "select_events = [Output FLASH_CLOCK False, Output FLASH_SELECT False, Delay_us 1]"

definition deselect_events :: "event list" where
  "deselect_events = [Output FLASH_SELECT True, Output FLASH_CLOCK False, Delay_us 1]"

text \<open>
  The events of \<open>STFlash_SendByte v\<close>: the eight bits of \<open>v\<close>, bit
  7 first.
\<close>

definition send_events :: "int8 \<Rightarrow> event list" where
  "send_events v = concat (map send_cell (byte_bits v))"

text \<open>The events of receiving the bits \<open>bs\<close>.\<close>

definition recv_events :: "bool list \<Rightarrow> event list" where
  "recv_events bs = concat (map recv_cell bs)"

text \<open>
  The events of the three address bytes of a command: byte 2, byte 1, byte 0.
\<close>

definition address_events :: "int32 \<Rightarrow> event list" where
  "address_events A =
     send_events (Make8 A 2) @ send_events (Make8 A 1) @ send_events (Make8 A 0)"

text \<open>
  The level of the select line after a sequence of events, from the level
  \<open>lvl\<close> on.
\<close>

fun select_level :: "bool \<Rightarrow> event list \<Rightarrow> bool" where
  "select_level lvl [] = lvl"
| "select_level lvl (Output FLASH_SELECT v # es) = select_level v es"
| "select_level lvl (e # es) = select_level lvl es"

text \<open>
  The 24 bits of the address phase: byte 2, byte 1, byte 0, each bit 7 first.
\<close>

definition address_bits :: "int32 \<Rightarrow> bool list" where
  "address_bits A = byte_bits (Make8 A 2) @ byte_bits (Make8 A 1) @ byte_bits (Make8 A 0)"

text \<open>
  \<open>n\<close> samplings of \<open>FLASH_DO\<close> in a row, as the loop of
  \<open>STFlash_waitUntilReady\<close> makes them.
\<close>

fun spin_n :: "device \<Rightarrow> nat \<Rightarrow> bus \<Rightarrow> bus" where
  "spin_n dev 0 s = s"
| "spin_n dev (Suc n) s = spin_n dev n (snd (input_DO dev s))"

text \<open>
  The events of one \<open>STFlash_readStatus\<close> that samples the bits
  \<open>bs\<close>.
\<close>

definition readStatus_events :: "bool list \<Rightarrow> event list" where
  "readStatus_events bs = select_events @ send_events 0x05 @ recv_events bs @ deselect_events"

text \<open>
  \<open>n\<close> calls of \<open>STFlash_readStatus\<close> in a row, the status values
  dropped.
\<close>

fun poll_n :: "device \<Rightarrow> nat \<Rightarrow> bus \<Rightarrow> bus" where
  "poll_n dev 0 s = s"
| "poll_n dev (Suc n) s = poll_n dev n (snd (STFlash_readStatus dev s))"

text \<open>
  The events of \<open>n\<close> status reads in a row, the first sampling being number
  \<open>k\<close>.
\<close>

fun poll_events :: "device \<Rightarrow> nat \<Rightarrow> nat \<Rightarrow> event list" where
  "poll_events dev k 0 = []"
| "poll_events dev k (Suc n) = readStatus_events (sampled dev k 8) @ poll_events dev (k + 8) n"

text \<open>
  The events of \<open>STFlash_WriteEnable\<close>, \<open>STFlash_WriteDisable\<close>
  and \<open>STFlash_Write1Byte\<close>.
\<close>

definition WriteEnable_events :: "event list" where
  "WriteEnable_events = select_events @ send_events 0x06 @ deselect_events"

definition WriteDisable_events :: "event list" where
  "WriteDisable_events = select_events @ send_events 0x04 @ deselect_events"

definition Write1Byte_events :: "int32 \<Rightarrow> int8 \<Rightarrow> event list" where
  "Write1Byte_events A d =
     WriteEnable_events @ select_events @ send_events 0x02 @ address_events A @ send_events d
       @ deselect_events"

text \<open>
  \<open>n\<close> status reads from the bus state \<open>t\<close> on poll until the busy
  bit clears: there is at least one, every read but the last has bit 0 set, and the last
  has bit 0 clear.
\<close>

definition status_polls_until_clear :: "device \<Rightarrow> nat \<Rightarrow> bus \<Rightarrow> bool" where
  "status_polls_until_clear dev n t =
     (0 < n
      \<and> (\<forall>j < n - 1. fst (STFlash_readStatus dev (poll_n dev j t)) AND 0x01 \<noteq> 0)
      \<and> fst (STFlash_readStatus dev (poll_n dev (n - 1) t)) AND 0x01 = 0)"

text \<open>
  \<open>STFlash_WriteBlock\<close>'s loop in the spec's words, from byte \<open>i\<close>
  on, with the number of status polls for each remaining byte given by \<open>ns\<close>:
  call \<open>STFlash_Write1Byte (A + i) (buf i)\<close>, wait 10 microseconds, read the
  status until the busy bit clears, go on to the next byte. The result is
  \<open>None\<close> when a number of polls is not the one the device's answers give.
\<close>

fun WriteBlock_spec ::
  "device \<Rightarrow> nat list \<Rightarrow> nat \<Rightarrow> int32 \<Rightarrow> (nat \<Rightarrow> int8) \<Rightarrow> bus \<Rightarrow> bus option" where
  "WriteBlock_spec dev [] i A buf s = Some s"
| "WriteBlock_spec dev (n # ns) i A buf s =
     (let t = delay_us 10 (STFlash_Write1Byte (A + of_nat i) (buf i) s)
      in if status_polls_until_clear dev n t
         then WriteBlock_spec dev ns (Suc i) A buf (poll_n dev n t)
         else None)"

text \<open>
  The events of that iteration, the first sampling being number \<open>k\<close>.
\<close>

fun WB_events ::
  "device \<Rightarrow> nat \<Rightarrow> nat list \<Rightarrow> nat \<Rightarrow> int32 \<Rightarrow> (nat \<Rightarrow> int8) \<Rightarrow> event list" where
  "WB_events dev k [] i A buf = []"
| "WB_events dev k (n # ns) i A buf =
     Write1Byte_events (A + of_nat i) (buf i) @ [Delay_us 10] @ poll_events dev k n
       @ WB_events dev (k + 8 * n) ns (Suc i) A buf"

text \<open>
  The frame of one status read, as the probe sees it: the opcode \<open>0x05\<close>, then
  eight clock pulses with \<open>FLASH_DI\<close> resting high (bit 0 of the opcode).
\<close>

definition status_frame :: "bool list" where
  "status_frame = byte_bits 0x05 @ replicate 8 True"

text \<open>
  The frames of \<open>STFlash_WriteBlock\<close>'s loop from byte \<open>i\<close> on:
  for each byte the write-enable frame, the program frame (opcode \<open>0x02\<close>,
  address, data) and one status frame for each poll.
\<close>

fun WB_frames :: "nat list \<Rightarrow> nat \<Rightarrow> int32 \<Rightarrow> (nat \<Rightarrow> int8) \<Rightarrow> bool list list" where
  "WB_frames [] i A buf = []"
| "WB_frames (n # ns) i A buf =
     [byte_bits 0x06, byte_bits 0x02 @ address_bits (A + of_nat i) @ byte_bits (buf i)]
       @ replicate n status_frame @ WB_frames ns (Suc i) A buf"

text \<open>
  The levels driven on \<open>FLASH_DI\<close> in a sequence of events, in order.
\<close>

fun di_levels :: "event list \<Rightarrow> bool list" where
  "di_levels [] = []"
| "di_levels (Output FLASH_DI v # es) = v # di_levels es"
| "di_levels (e # es) = di_levels es"

text \<open>
  The number spelled by the 24 bits that follow the first 8 bits (the opcode) of a frame.
\<close>

definition address_field :: "bool list \<Rightarrow> nat" where
  "address_field f = bits_value (take 24 (drop 8 f))"

text \<open>
  Modelled from the spec: the write-enable latch is a flag inside the flash device, which
  is hardware and not in the source. The spec's table of commands says that
  \<open>WriteEnable\<close> (opcode \<open>0x06\<close>) sets it and \<open>WriteDisable\<close> (opcode \<open>0x04\<close>) clears
  it, and names no other command that changes it. \<open>write_enable_latch l fs\<close> is the
  latch after the device has seen the frames \<open>fs\<close>, when it was \<open>l\<close> before.
\<close>

fun write_enable_latch :: "bool \<Rightarrow> bool list list \<Rightarrow> bool" where
  "write_enable_latch l [] = l"
| "write_enable_latch l (f # fs) =
     write_enable_latch
       (if f = byte_bits 0x06 then True else if f = byte_bits 0x04 then False else l) fs"

text \<open>
  Consecutive calls of \<open>STFlash_Write1Byte\<close>, one for each address and byte.
\<close>

fun Write1Byte_calls :: "(int32 \<times> int8) list \<Rightarrow> bus \<Rightarrow> bus" where
  "Write1Byte_calls [] s = s"
| "Write1Byte_calls ((A, d) # ws) s = Write1Byte_calls ws (STFlash_Write1Byte A d s)"

text \<open>
  The frames of consecutive \<open>STFlash_Write1Byte\<close> calls: for each, the
  write-enable frame and the program frame.
\<close>

definition program_frames :: "(int32 \<times> int8) list \<Rightarrow> bool list list" where
  "program_frames ws =
     concat (map (\<lambda>(A, d). [byte_bits 0x06, byte_bits 0x02 @ address_bits A @ byte_bits d]) ws)"

section \<open>Properties\<close>

subsection \<open>The bus primitives\<close>

lemma emit_fields [simp]:
  "select_pin (emit e s) = select_pin s" "clock_pin (emit e s) = clock_pin s"
  "di_pin (emit e s) = di_pin s" "samples (emit e s) = samples s"
  "trace (emit e s) = trace s @ [e]"
  by (simp_all add: emit_def)

lemma output_bit_fields [simp]:
  "select_pin (output_bit p v s) = (if p = FLASH_SELECT then v else select_pin s)"
  "clock_pin (output_bit p v s) = (if p = FLASH_CLOCK then v else clock_pin s)"
  "di_pin (output_bit p v s) = (if p = FLASH_DI then v else di_pin s)"
  "samples (output_bit p v s) = samples s"
  "trace (output_bit p v s) = trace s @ [Output p v]"
  by (cases p; simp add: output_bit_def)+

lemma delay_fields [simp]:
  "select_pin (delay_cycles n s) = select_pin s" "clock_pin (delay_cycles n s) = clock_pin s"
  "di_pin (delay_cycles n s) = di_pin s" "samples (delay_cycles n s) = samples s"
  "trace (delay_cycles n s) = trace s @ [Delay_cycles n]"
  "select_pin (delay_us n s) = select_pin s" "clock_pin (delay_us n s) = clock_pin s"
  "di_pin (delay_us n s) = di_pin s" "samples (delay_us n s) = samples s"
  "trace (delay_us n s) = trace s @ [Delay_us n]"
  by (simp_all add: delay_cycles_def delay_us_def)

lemma input_DO_fields [simp]:
  "fst (input_DO dev s) = data_out dev (samples s)"
  "select_pin (snd (input_DO dev s)) = select_pin s"
  "clock_pin (snd (input_DO dev s)) = clock_pin s"
  "di_pin (snd (input_DO dev s)) = di_pin s"
  "samples (snd (input_DO dev s)) = Suc (samples s)"
  "trace (snd (input_DO dev s)) = trace s @ [Input (data_out dev (samples s))]"
  by (simp_all add: input_DO_def)

lemma chip_select_fields [simp]:
  "select_pin (chip_select s) = False" "clock_pin (chip_select s) = False"
  "di_pin (chip_select s) = di_pin s" "samples (chip_select s) = samples s"
  "trace (chip_select s) = trace s @ [Output FLASH_CLOCK False, Output FLASH_SELECT False, Delay_us 1]"
  by (simp_all add: chip_select_def output_low_def SELSDELAY_def)

lemma chip_deselect_fields [simp]:
  "select_pin (chip_deselect s) = True" "clock_pin (chip_deselect s) = False"
  "di_pin (chip_deselect s) = di_pin s" "samples (chip_deselect s) = samples s"
  "trace (chip_deselect s) = trace s @ [Output FLASH_SELECT True, Output FLASH_CLOCK False, Delay_us 1]"
  by (simp_all add: chip_deselect_def output_low_def output_high_def SELSDELAY_def)

lemma send_bits_fields [simp]:
  "select_pin (send_bits bs s) = select_pin s"
  "clock_pin (send_bits bs s) = (if bs = [] then clock_pin s else False)"
  "di_pin (send_bits bs s) = (if bs = [] then di_pin s else last bs)"
  "samples (send_bits bs s) = samples s"
  "trace (send_bits bs s) = trace s @ concat (map send_cell bs)"
  by (induction bs arbitrary: s; simp add: send_cell_def)+

lemma bit_shl1: "bit (push_bit 1 (d::int8)) n = (0 < n \<and> n < 8 \<and> bit d (n - 1))"
  by (subst bit_push_bit_iff) (auto simp: possible_bit_word dest: bit_imp_le_length)

lemma bit_dbl: "bit (d * 2 :: int8) n = (0 < n \<and> n < 8 \<and> bit d (n - 1))"
  using bit_shl1[of d n] by simp

lemma SendByte_step:
  "i < 8 \<Longrightarrow> SendByte_loop i data s =
     SendByte_loop (Suc i) (push_bit 1 data)
       (delay_cycles 2 (output_bit FLASH_CLOCK False (delay_cycles 2
          (output_bit FLASH_CLOCK True (output_bit FLASH_DI (bit data 7) s)))))"
  by (subst SendByte_loop.simps) (simp add: shift_left_def output_high_def output_low_def SCLKDELAY_def)

lemma SendByte_stop: "8 \<le> i \<Longrightarrow> SendByte_loop i data s = s"
  by (subst SendByte_loop.simps) simp

lemma upt_shift: "[0..<Suc k] = 0 # map Suc [0..<k]"
  by (simp add: upt_conv_Cons map_Suc_upt del: upt_Suc)

lemma SendByte_loop_eq:
  "i \<le> 8 \<Longrightarrow> SendByte_loop i data s = send_bits (map (\<lambda>j. bit data (7 - j)) [0..<8 - i]) s"
proof (induction "8 - i" arbitrary: i data s)
  case 0
  then show ?case by (simp add: SendByte_stop)
next
  case (Suc k)
  then have i: "i < 8" and k: "k = 8 - Suc i" by simp_all
  have "8 - i = Suc k" using Suc.hyps(2) by simp
  then have upt: "[0..<8 - i] = 0 # map Suc [0..<k]" by (simp only: upt_shift)
  have bits: "map (\<lambda>j. bit (push_bit 1 data) (7 - j)) [0..<k] = map (\<lambda>j. bit data (7 - Suc j)) [0..<k]"
    using k i by (auto simp only: bit_shl1 map_eq_conv set_upt atLeastLessThan_iff) (simp_all add: Suc_diff_Suc)
  have "SendByte_loop (Suc i) (push_bit 1 data) s' =
          send_bits (map (\<lambda>j. bit (push_bit 1 data) (7 - j)) [0..<k]) s'" for s'
    using Suc.hyps(1)[of "Suc i" "push_bit 1 data" s'] k i by simp
  then show ?case
    by (simp only: SendByte_step[OF i] upt bits list.map send_bits.simps map_map o_def diff_zero)
qed

lemma byte_bits_upt: "map (\<lambda>j. bit v (7 - j)) [0..<8] = byte_bits v"
  by (simp add: byte_bits_def upt_rec)

lemma SendByte_eq: "STFlash_SendByte v s = send_bits (byte_bits v) s"
  by (simp add: STFlash_SendByte_def SendByte_loop_eq byte_bits_upt)

lemma SendByte_fields [simp]:
  "select_pin (STFlash_SendByte v s) = select_pin s"
  "clock_pin (STFlash_SendByte v s) = False"
  "di_pin (STFlash_SendByte v s) = bit v 0"
  "samples (STFlash_SendByte v s) = samples s"
  "trace (STFlash_SendByte v s) = trace s @ concat (map send_cell (byte_bits v))"
  by (simp_all add: SendByte_eq) (simp_all add: byte_bits_def)

lemma shift_in_simps:
  "shift_in acc [] = acc"
  "shift_in acc (b # bs) = shift_in (push_bit 1 acc OR of_bool b) bs"
  by (simp_all add: shift_in_def)

lemma bit_of_bool8: "bit (of_bool b :: int8) n = (b \<and> n = 0)"
  by (cases b) (simp_all add: bit_1_iff)

lemma bit_shift_in:
  "bit (shift_in acc bs) n =
     (n < 8 \<and> (if n < length bs then rev bs ! n else bit acc (n - length bs)))"
proof (induction bs arbitrary: acc)
  case Nil
  then show ?case by (auto simp: shift_in_simps dest: bit_imp_le_length)
next
  case (Cons b bs)
  show ?case
  proof (cases "n < length bs")
    case True
    then show ?thesis by (simp add: shift_in_simps Cons.IH nth_append)
  next
    case False
    then show ?thesis
      by (auto simp add: shift_in_simps Cons.IH nth_append bit_or_iff bit_dbl bit_of_bool8 Suc_diff_le not_less)
  qed
qed

lemma shift_in_full: "length bs = 8 \<Longrightarrow> shift_in acc bs = shift_in 0 bs"
  by (rule bit_eqI) (simp add: bit_shift_in)

lemma upt_8: "[0..<8] = [0, 1, 2, 3, 4, 5, 6, 7]"
  by (simp add: upt_rec)

lemma rev_byte_bits: "rev (byte_bits v) = map (bit v) [0..<8]"
  unfolding upt_8 by (simp add: byte_bits_def)

lemma byte_bits_length [simp]: "length (byte_bits v) = 8"
  by (simp add: byte_bits_def)

lemma shift_in_byte_bits: "shift_in acc (byte_bits v) = v"
proof (rule bit_eqI)
  fix n
  assume "possible_bit TYPE(int8) n"
  then have n: "n < 8" by (simp add: possible_bit_word)
  have "bit (shift_in acc (byte_bits v)) n = (map (bit v) [0..<8] ! n)"
    using n by (simp only: bit_shift_in rev_byte_bits byte_bits_length if_True simp_thms)
  also have "\<dots> = bit v n"
    using n by (simp only: nth_map_upt[of n 8 0] diff_zero add_0)
  finally show "bit (shift_in acc (byte_bits v)) n = bit v n" .
qed

lemma sampled_Suc: "sampled dev k (Suc n) = data_out dev k # sampled dev (Suc k) n"
  by (simp add: sampled_def upt_conv_Cons del: upt_Suc)

lemma sampled_0 [simp]: "sampled dev k 0 = []"
  by (simp add: sampled_def)

lemma sampled_length [simp]: "length (sampled dev k n) = n"
  by (simp add: sampled_def)

lemma sampled_add: "sampled dev k (m + n) = sampled dev k m @ sampled dev (k + m) n"
proof (induction m arbitrary: k)
  case 0
  then show ?case by simp
next
  case (Suc m)
  have "sampled dev k (Suc (m + n)) = data_out dev k # sampled dev (Suc k) (m + n)"
    by (rule sampled_Suc)
  then show ?case by (simp add: Suc.IH sampled_Suc)
qed

lemma clock_in_fields [simp]:
  "select_pin (clock_in dev n s) = select_pin s"
  "clock_pin (clock_in dev n s) = (if n = 0 then clock_pin s else False)"
  "di_pin (clock_in dev n s) = di_pin s"
  "samples (clock_in dev n s) = samples s + n"
  "trace (clock_in dev n s) = trace s @ concat (map recv_cell (sampled dev (samples s) n))"
  by (induction n arbitrary: s; simp add: recv_cell_def sampled_Suc)+

lemma clock_in_add: "clock_in dev (m + n) s = clock_in dev n (clock_in dev m s)"
  by (induction m arbitrary: s) simp_all

lemma GetByte_step:
  "i < 8 \<Longrightarrow> GetByte_loop dev i acc s =
     GetByte_loop dev (Suc i) (push_bit 1 acc OR of_bool (data_out dev (samples s)))
       (clock_in dev 1 s)"
  by (subst GetByte_loop.simps)
     (simp add: shift_left_def output_high_def output_low_def SCLKDELAY_def Let_def split_beta)

lemma GetByte_stop: "8 \<le> i \<Longrightarrow> GetByte_loop dev i acc s = (acc, s)"
  by (subst GetByte_loop.simps) simp

lemma GetByte_loop_eq:
  "i \<le> 8 \<Longrightarrow> GetByte_loop dev i acc s =
     (shift_in acc (sampled dev (samples s) (8 - i)), clock_in dev (8 - i) s)"
proof (induction "8 - i" arbitrary: i acc s)
  case 0
  then show ?case by (simp add: GetByte_stop shift_in_simps)
next
  case (Suc k)
  from Suc.hyps(2) have i: "i < 8" and k: "k = 8 - Suc i" and e: "8 - i = Suc k" by simp_all
  have c: "clock_in dev (Suc k) s = clock_in dev k (clock_in dev 1 s)"
    using clock_in_add[of dev 1 k s] by simp
  have ih: "GetByte_loop dev (Suc i) acc' s' =
     (shift_in acc' (sampled dev (samples s') k), clock_in dev k s')" for acc' s'
    using Suc.hyps(1)[of "Suc i" acc' s'] i unfolding k by simp
  show ?case
    unfolding GetByte_step[OF i] ih e c sampled_Suc by (simp add: shift_in_simps)
qed

lemma GetByte_eq:
  "STFlash_GetByte dev s = (shift_in 0 (sampled dev (samples s) 8), clock_in dev 8 s)"
  by (simp add: STFlash_GetByte_def GetByte_loop_eq shift_in_full[of _ "stale dev (samples s)"])

lemma getBytes_inner_step:
  "j < 8 \<Longrightarrow> getBytes_inner dev i j data s =
     getBytes_inner dev i (Suc j)
       (data(i := push_bit 1 (data i) OR of_bool (data_out dev (samples s))))
       (clock_in dev 1 s)"
  by (subst getBytes_inner.simps)
     (simp add: shift_left_def output_high_def output_low_def SCLKDELAY_def Let_def split_beta)

lemma getBytes_inner_stop: "8 \<le> j \<Longrightarrow> getBytes_inner dev i j data s = (data, s)"
  by (subst getBytes_inner.simps) simp

lemma getBytes_inner_eq:
  "j \<le> 8 \<Longrightarrow> getBytes_inner dev i j data s =
     (data(i := shift_in (data i) (sampled dev (samples s) (8 - j))), clock_in dev (8 - j) s)"
proof (induction "8 - j" arbitrary: j data s)
  case 0
  then show ?case by (simp add: getBytes_inner_stop shift_in_simps)
next
  case (Suc k)
  from Suc.hyps(2) have j: "j < 8" and k: "k = 8 - Suc j" and e: "8 - j = Suc k" by simp_all
  have c: "clock_in dev (Suc k) s = clock_in dev k (clock_in dev 1 s)"
    using clock_in_add[of dev 1 k s] by simp
  have ih: "getBytes_inner dev i (Suc j) data' s' =
     (data'(i := shift_in (data' i) (sampled dev (samples s') k)), clock_in dev k s')" for data' s'
    using Suc.hyps(1)[of "Suc j" data' s'] j unfolding k by simp
  show ?case
    unfolding getBytes_inner_step[OF j] ih e c sampled_Suc by (simp add: shift_in_simps)
qed

lemma getBytes_loop_step:
  "i < unat sz \<Longrightarrow> getBytes_loop dev i sz data s =
     getBytes_loop dev (Suc i) sz (data(i := shift_in 0 (sampled dev (samples s) 8)))
       (clock_in dev 8 s)"
  by (subst getBytes_loop.simps)
     (simp add: getBytes_inner_eq shift_in_full[of _ "data i"])

lemma getBytes_loop_stop: "unat sz \<le> i \<Longrightarrow> getBytes_loop dev i sz data s = (data, s)"
  by (subst getBytes_loop.simps) simp

lemma getBytes_loop_eq:
  "i \<le> unat sz \<Longrightarrow> getBytes_loop dev i sz data s =
     ((\<lambda>k. if i \<le> k \<and> k < unat sz
            then shift_in 0 (sampled dev (samples s + 8 * (k - i)) 8) else data k),
      clock_in dev (8 * (unat sz - i)) s)"
proof (induction "unat sz - i" arbitrary: i data s)
  case 0
  then show ?case by (auto simp add: getBytes_loop_stop fun_eq_iff)
next
  case (Suc m)
  from Suc.hyps(2) have i: "i < unat sz" and m: "m = unat sz - Suc i" by simp_all
  have c: "clock_in dev (8 * (unat sz - i)) s = clock_in dev (8 * (unat sz - Suc i)) (clock_in dev 8 s)"
  proof -
    have "8 * (unat sz - i) = 8 + 8 * (unat sz - Suc i)" using i by simp
    then show ?thesis by (simp only: clock_in_add)
  qed
  have a: "samples s + 8 + 8 * (k - Suc i) = samples s + 8 * (k - i)" if "i < k" for k
    using that by (simp add: Suc_diff_Suc)
  have ih: "getBytes_loop dev (Suc i) sz data' s' =
     ((\<lambda>k. if Suc i \<le> k \<and> k < unat sz
            then shift_in 0 (sampled dev (samples s' + 8 * (k - Suc i)) 8) else data' k),
      clock_in dev (8 * (unat sz - Suc i)) s')" for data' s'
    using Suc.hyps(1)[of "Suc i" data' s'] i m by simp
  show ?case
    unfolding getBytes_loop_step[OF i] ih c
    using i by (auto simp add: fun_eq_iff a)
qed

lemma getBytes_eq:
  "STFlash_getBytes dev data sz s =
     ((\<lambda>k. if k < unat sz then shift_in 0 (sampled dev (samples s + 8 * k) 8) else data k),
      clock_in dev (8 * unat sz) s)"
  by (auto simp add: STFlash_getBytes_def getBytes_loop_eq fun_eq_iff)

subsection \<open>The events of each command\<close>

lemma emitted_eq: "trace s' = trace s @ es \<Longrightarrow> emitted s s' = es"
  by (simp add: emitted_def)

lemma chip_select_trace: "trace (chip_select s) = trace s @ select_events"
  by (simp add: select_events_def)

lemma chip_deselect_trace: "trace (chip_deselect s) = trace s @ deselect_events"
  by (simp add: deselect_events_def)

lemma SendByte_trace: "trace (STFlash_SendByte v s) = trace s @ send_events v"
  by (simp add: send_events_def)

lemma clock_in_trace:
  "trace (clock_in dev n s) = trace s @ recv_events (sampled dev (samples s) n)"
  by (simp add: recv_events_def)

lemmas trace_simps = chip_select_trace chip_deselect_trace SendByte_trace clock_in_trace

lemma WriteEnable_fields:
  "select_pin (STFlash_WriteEnable s) = True"
  "clock_pin (STFlash_WriteEnable s) = False"
  "di_pin (STFlash_WriteEnable s) = False"
  "samples (STFlash_WriteEnable s) = samples s"
  "trace (STFlash_WriteEnable s) = trace s @ select_events @ send_events 0x06 @ deselect_events"
  by (simp_all add: STFlash_WriteEnable_def trace_simps del: chip_select_fields(5) chip_deselect_fields(5) SendByte_fields(5))

lemma WriteDisable_fields:
  "select_pin (STFlash_WriteDisable s) = True"
  "clock_pin (STFlash_WriteDisable s) = False"
  "di_pin (STFlash_WriteDisable s) = False"
  "samples (STFlash_WriteDisable s) = samples s"
  "trace (STFlash_WriteDisable s) = trace s @ select_events @ send_events 0x04 @ deselect_events"
  by (simp_all add: STFlash_WriteDisable_def trace_simps del: chip_select_fields(5) chip_deselect_fields(5) SendByte_fields(5))

lemma readStatus_fields:
  "fst (STFlash_readStatus dev s) = shift_in 0 (sampled dev (samples s) 8)"
  "select_pin (snd (STFlash_readStatus dev s)) = True"
  "clock_pin (snd (STFlash_readStatus dev s)) = False"
  "di_pin (snd (STFlash_readStatus dev s)) = True"
  "samples (snd (STFlash_readStatus dev s)) = samples s + 8"
  "trace (snd (STFlash_readStatus dev s)) =
     trace s @ select_events @ send_events 0x05 @ recv_events (sampled dev (samples s) 8)
       @ deselect_events"
  by (simp_all add: STFlash_readStatus_def GetByte_eq trace_simps
        del: chip_select_fields(5) chip_deselect_fields(5) SendByte_fields(5) clock_in_fields(5))

lemma writeStatus_fields:
  "select_pin (STFlash_writeStatus v s) = True"
  "clock_pin (STFlash_writeStatus v s) = False"
  "di_pin (STFlash_writeStatus v s) = False"
  "samples (STFlash_writeStatus v s) = samples s"
  "trace (STFlash_writeStatus v s) =
     trace s @ select_events @ send_events 0x06 @ deselect_events
       @ select_events @ send_events 0x01 @ send_events v @ deselect_events
       @ select_events @ send_events 0x04 @ deselect_events"
  by (simp_all add: STFlash_writeStatus_def WriteEnable_fields WriteDisable_fields trace_simps
        del: chip_select_fields(5) chip_deselect_fields(5) SendByte_fields(5))

lemma Make8_0_bit0: "bit (Make8 A 0) 0 = bit A 0"
  by (simp add: Make8_def bit_simps)

lemma ReadBlock_fields:
  "fst (STFlash_ReadBlock dev A buffer sz s) =
     (\<lambda>k. if k < unat sz then shift_in 0 (sampled dev (samples s + 8 * k) 8) else buffer k)"
  "select_pin (snd (STFlash_ReadBlock dev A buffer sz s)) = True"
  "clock_pin (snd (STFlash_ReadBlock dev A buffer sz s)) = False"
  "di_pin (snd (STFlash_ReadBlock dev A buffer sz s)) = bit A 0"
  "samples (snd (STFlash_ReadBlock dev A buffer sz s)) = samples s + 8 * unat sz"
  "trace (snd (STFlash_ReadBlock dev A buffer sz s)) =
     trace s @ select_events @ send_events 0x03 @ address_events A
       @ recv_events (sampled dev (samples s) (8 * unat sz)) @ deselect_events"
  by (simp_all add: STFlash_ReadBlock_def getBytes_eq trace_simps address_events_def Let_def
        Make8_0_bit0
        del: chip_select_fields(5) chip_deselect_fields(5) SendByte_fields(5) clock_in_fields(5)
        cong: if_cong)

lemma Write1Byte_fields:
  "select_pin (STFlash_Write1Byte A d s) = True"
  "clock_pin (STFlash_Write1Byte A d s) = False"
  "di_pin (STFlash_Write1Byte A d s) = bit d 0"
  "samples (STFlash_Write1Byte A d s) = samples s"
  "trace (STFlash_Write1Byte A d s) =
     trace s @ select_events @ send_events 0x06 @ deselect_events
       @ select_events @ send_events 0x02 @ address_events A @ send_events d @ deselect_events"
  by (simp_all add: STFlash_Write1Byte_def WriteEnable_fields trace_simps address_events_def
        del: chip_select_fields(5) chip_deselect_fields(5) SendByte_fields(5))

lemma EraseBlock_fields:
  "select_pin (STFlash_EraseBlock A s) = True"
  "clock_pin (STFlash_EraseBlock A s) = False"
  "di_pin (STFlash_EraseBlock A s) = False"
  "samples (STFlash_EraseBlock A s) = samples s"
  "trace (STFlash_EraseBlock A s) =
     trace s @ select_events @ send_events 0x06 @ deselect_events
       @ select_events @ send_events 0xD8 @ address_events A
       @ [Output FLASH_SELECT True] @ deselect_events
       @ select_events @ send_events 0x04 @ deselect_events"
  by (simp_all add: STFlash_EraseBlock_def WriteEnable_fields WriteDisable_fields trace_simps
        address_events_def output_high_def
        del: chip_select_fields(5) chip_deselect_fields(5) SendByte_fields(5))

subsection \<open>What the probe and the select line see of the events\<close>

lemma probe_run_simps [simp]:
  "probe_run [] p = p"
  "probe_run (e # es) p = probe_run es (probe_step e p)"
  "probe_run (a @ b) p = probe_run b (probe_run a p)"
  by (simp_all add: probe_run_def)

lemma probe_send_cells:
  "probe_run (concat (map send_cell bs)) \<lparr>sel = False, clk = False, mosi = m, bits = B, closed = C\<rparr>
     = \<lparr>sel = False, clk = False, mosi = last (m # bs), bits = B @ bs, closed = C\<rparr>"
  by (induction bs arbitrary: m B) (simp_all add: send_cell_def)

lemma probe_send:
  "probe_run (send_events v) \<lparr>sel = False, clk = False, mosi = m, bits = B, closed = C\<rparr>
     = \<lparr>sel = False, clk = False, mosi = bit v 0, bits = B @ byte_bits v, closed = C\<rparr>"
  unfolding send_events_def probe_send_cells by (simp add: byte_bits_def)

lemma probe_recv:
  "probe_run (recv_events bs) \<lparr>sel = False, clk = False, mosi = m, bits = B, closed = C\<rparr>
     = \<lparr>sel = False, clk = False, mosi = m, bits = B @ replicate (length bs) m, closed = C\<rparr>"
  unfolding recv_events_def
  by (induction bs arbitrary: B) (simp_all add: recv_cell_def replicate_append_same)

lemma probe_address:
  "probe_run (address_events A) \<lparr>sel = False, clk = False, mosi = m, bits = B, closed = C\<rparr>
     = \<lparr>sel = False, clk = False, mosi = bit A 0, bits = B @ address_bits A, closed = C\<rparr>"
  by (simp add: address_events_def address_bits_def probe_send Make8_0_bit0)

lemma probe_select:
  "sel p \<Longrightarrow> probe_run select_events p
     = \<lparr>sel = False, clk = False, mosi = mosi p, bits = [], closed = closed p\<rparr>"
  by (simp add: select_events_def)

lemma probe_deselect:
  "probe_run deselect_events \<lparr>sel = False, clk = c, mosi = m, bits = B, closed = C\<rparr>
     = \<lparr>sel = True, clk = False, mosi = m, bits = [], closed = C @ [B]\<rparr>"
  by (simp add: deselect_events_def)

lemma probe_select':
  "probe_run select_events \<lparr>sel = True, clk = c, mosi = m, bits = B, closed = C\<rparr>
     = \<lparr>sel = False, clk = False, mosi = m, bits = [], closed = C\<rparr>"
  by (simp add: select_events_def)

lemma probe_deselect_again:
  "probe_run deselect_events \<lparr>sel = True, clk = c, mosi = m, bits = B, closed = C\<rparr>
     = \<lparr>sel = True, clk = False, mosi = m, bits = B, closed = C\<rparr>"
  by (simp add: deselect_events_def)

lemmas probe_simps = probe_send probe_recv probe_address probe_select' probe_deselect

lemma select_level_append:
  "select_level lvl (a @ b) = select_level (select_level lvl a) b"
  by (induction lvl a rule: select_level.induct) simp_all

lemma select_edges_append:
  "select_edges lvl (a @ b) = select_edges lvl a @ select_edges (select_level lvl a) b"
  by (induction lvl a rule: select_edges.induct) simp_all

lemmas select_append = select_edges_append select_level_append

lemma select_send_cells:
  "select_edges lvl (concat (map send_cell bs)) = []"
  "select_level lvl (concat (map send_cell bs)) = lvl"
  by (induction bs) (simp_all add: send_cell_def)

lemma select_recv_cells:
  "select_edges lvl (concat (map recv_cell bs)) = []"
  "select_level lvl (concat (map recv_cell bs)) = lvl"
  by (induction bs) (simp_all add: recv_cell_def)

lemma select_blocks:
  "select_edges lvl (send_events v) = []" "select_level lvl (send_events v) = lvl"
  "select_edges lvl (recv_events bs) = []" "select_level lvl (recv_events bs) = lvl"
  "select_edges lvl (address_events A) = []" "select_level lvl (address_events A) = lvl"
  "select_edges lvl select_events = (if lvl then [False] else [])"
  "select_level lvl select_events = False"
  "select_edges lvl deselect_events = (if lvl then [] else [True])"
  "select_level lvl deselect_events = True"
  by (simp_all add: send_events_def recv_events_def address_events_def select_events_def
        deselect_events_def select_send_cells select_recv_cells select_append)

subsection \<open>The two unbounded loops\<close>

lemma spin_n_fields [simp]:
  "select_pin (spin_n dev n s) = select_pin s"
  "clock_pin (spin_n dev n s) = clock_pin s"
  "di_pin (spin_n dev n s) = di_pin s"
  "samples (spin_n dev n s) = samples s + n"
  "trace (spin_n dev n s) = trace s @ map Input (sampled dev (samples s) n)"
  by (induction n arbitrary: s; simp add: sampled_Suc)+

lemma spin_returns:
  "\<forall>j<n. data_out dev (samples s + j) \<Longrightarrow> \<not> data_out dev (samples s + n) \<Longrightarrow>
     waitUntilReady_spin dev s = Some (spin_n dev (Suc n) s)"
proof (induction n arbitrary: s)
  case 0
  then show ?case by (subst waitUntilReady_spin.simps) (simp add: input_DO_def)
next
  case (Suc n)
  let ?s' = "snd (input_DO dev s)"
  have busy: "data_out dev (samples s)" using Suc.prems(1) by force
  have "\<forall>j<n. data_out dev (samples ?s' + j)" using Suc.prems(1) by force
  moreover have "\<not> data_out dev (samples ?s' + n)" using Suc.prems(2) by simp
  ultimately have "waitUntilReady_spin dev ?s' = Some (spin_n dev (Suc n) ?s')"
    by (rule Suc.IH)
  then show ?case
    using busy by (subst waitUntilReady_spin.simps) (simp add: split_beta)
qed

lemma spin_returned:
  assumes "waitUntilReady_spin dev s = Some s'"
  shows "\<exists>n. (\<forall>j<n. data_out dev (samples s + j)) \<and> \<not> data_out dev (samples s + n)
        \<and> s' = spin_n dev (Suc n) s"
proof (rule waitUntilReady_spin.raw_induct[where P = "\<lambda>d t y.
     \<exists>n. (\<forall>j<n. data_out d (samples t + j)) \<and> \<not> data_out d (samples t + n)
        \<and> y = spin_n d (Suc n) t", OF _ assms])
  fix spin d t y
  assume IH: "\<And>d t y. spin d t = Some y \<Longrightarrow>
     \<exists>n. (\<forall>j<n. data_out d (samples t + j)) \<and> \<not> data_out d (samples t + n)
        \<and> y = spin_n d (Suc n) t"
    and eq: "(case input_DO d t of (v, s') \<Rightarrow> if v then spin d s' else Some s') = Some y"
  show "\<exists>n. (\<forall>j<n. data_out d (samples t + j)) \<and> \<not> data_out d (samples t + n)
        \<and> y = spin_n d (Suc n) t"
  proof (cases "data_out d (samples t)")
    case False
    then have "y = spin_n d (Suc 0) t" using eq by (simp add: split_beta)
    with False show ?thesis by (intro exI[where x = 0]) simp
  next
    case True
    let ?t = "snd (input_DO d t)"
    from True eq have "spin d ?t = Some y" by (simp add: split_beta)
    from IH[OF this] obtain n where n: "\<forall>j<n. data_out d (samples ?t + j)"
      "\<not> data_out d (samples ?t + n)" "y = spin_n d (Suc n) ?t" by blast
    have "\<forall>j<Suc n. data_out d (samples t + j)"
    proof (intro allI impI)
      fix j assume "j < Suc n"
      then show "data_out d (samples t + j)"
        using True n(1) by (cases j) auto
    qed
    moreover have "\<not> data_out d (samples t + Suc n)" using n(2) by simp
    moreover have "y = spin_n d (Suc (Suc n)) t" using n(3) by simp
    ultimately show ?thesis by blast
  qed
qed

lemma spin_returns_iff:
  "(waitUntilReady_spin dev s \<noteq> None) = (\<exists>k. \<not> data_out dev (samples s + k))"
proof
  assume "waitUntilReady_spin dev s \<noteq> None"
  then obtain s' where "waitUntilReady_spin dev s = Some s'" by blast
  from spin_returned[OF this] show "\<exists>k. \<not> data_out dev (samples s + k)" by blast
next
  assume ex: "\<exists>k. \<not> data_out dev (samples s + k)"
  define n where "n = (LEAST k. \<not> data_out dev (samples s + k))"
  have "\<not> data_out dev (samples s + n)" unfolding n_def using ex by (rule LeastI_ex)
  moreover have "\<forall>j<n. data_out dev (samples s + j)"
    unfolding n_def using not_less_Least by blast
  ultimately show "waitUntilReady_spin dev s \<noteq> None"
    using spin_returns by simp
qed

lemma status_busy:
  "(shift_in 0 (sampled dev k 8) AND 0x01 \<noteq> 0) = data_out dev (k + 7)"
proof -
  have "(shift_in 0 (sampled dev k 8) AND 1 \<noteq> 0) = bit (shift_in 0 (sampled dev k 8)) 0"
    by (simp add: and_one_eq bit_0 mod_2_eq_odd)
  also have "\<dots> = data_out dev (k + 7)"
    by (simp add: bit_shift_in sampled_def rev_nth)
  finally show ?thesis .
qed

lemma poll_step:
  "WriteBlock_poll dev s =
     (if data_out dev (samples s + 7) then WriteBlock_poll dev (snd (STFlash_readStatus dev s))
      else Some (snd (STFlash_readStatus dev s)))"
  by (subst WriteBlock_poll.simps)
     (simp add: split_beta readStatus_fields(1) status_busy)

lemma poll_n_fields [simp]:
  "select_pin (poll_n dev n s) = (if n = 0 then select_pin s else True)"
  "clock_pin (poll_n dev n s) = (if n = 0 then clock_pin s else False)"
  "di_pin (poll_n dev n s) = (if n = 0 then di_pin s else True)"
  "samples (poll_n dev n s) = samples s + 8 * n"
  "trace (poll_n dev n s) = trace s @ poll_events dev (samples s) n"
  by (induction n arbitrary: s; simp add: readStatus_fields readStatus_events_def)+

lemma poll_n_Suc_right: "poll_n dev (Suc n) s = snd (STFlash_readStatus dev (poll_n dev n s))"
  by (induction n arbitrary: s) simp_all

lemma status_read_busy:
  "(fst (STFlash_readStatus dev (poll_n dev j s)) AND 0x01 \<noteq> 0)
     = data_out dev (samples s + 8 * j + 7)"
  by (simp add: readStatus_fields(1) status_busy)

lemma status_polls_until_clear_samples:
  "status_polls_until_clear dev n t =
     (0 < n \<and> (\<forall>j < n - 1. data_out dev (samples t + 8 * j + 7))
        \<and> \<not> data_out dev (samples t + 8 * (n - 1) + 7))"
proof -
  have "(fst (STFlash_readStatus dev (poll_n dev j t)) AND 0x01 = 0)
          = (\<not> data_out dev (samples t + 8 * j + 7))" for j
    using status_read_busy[of dev j t] by blast
  then show ?thesis
    unfolding status_polls_until_clear_def by (simp add: status_read_busy)
qed

lemma poll_returns:
  "\<forall>j<n. data_out dev (samples s + 8 * j + 7) \<Longrightarrow> \<not> data_out dev (samples s + 8 * n + 7) \<Longrightarrow>
     WriteBlock_poll dev s = Some (poll_n dev (Suc n) s)"
proof (induction n arbitrary: s)
  case 0
  then show ?case by (subst poll_step) simp
next
  case (Suc n)
  let ?s' = "snd (STFlash_readStatus dev s)"
  have busy: "data_out dev (samples s + 7)" using Suc.prems(1) by force
  have "data_out dev (samples ?s' + 8 * j + 7)" if "j < n" for j
    using Suc.prems(1)[rule_format, of "Suc j"] that by (simp add: readStatus_fields add.assoc)
  moreover have "\<not> data_out dev (samples ?s' + 8 * n + 7)"
    using Suc.prems(2) by (simp add: readStatus_fields add.assoc)
  ultimately have "WriteBlock_poll dev ?s' = Some (poll_n dev (Suc n) ?s')"
    by (intro Suc.IH) blast+
  then show ?case
    using busy by (subst poll_step) simp
qed

lemma poll_returned:
  assumes "WriteBlock_poll dev s = Some s'"
  shows "\<exists>n. (\<forall>j<n. data_out dev (samples s + 8 * j + 7)) \<and> \<not> data_out dev (samples s + 8 * n + 7)
        \<and> s' = poll_n dev (Suc n) s"
proof (rule WriteBlock_poll.raw_induct[where P = "\<lambda>d t y.
     \<exists>n. (\<forall>j<n. data_out d (samples t + 8 * j + 7)) \<and> \<not> data_out d (samples t + 8 * n + 7)
        \<and> y = poll_n d (Suc n) t", OF _ assms])
  fix poll d t y
  assume IH: "\<And>d t y. poll d t = Some y \<Longrightarrow>
     \<exists>n. (\<forall>j<n. data_out d (samples t + 8 * j + 7)) \<and> \<not> data_out d (samples t + 8 * n + 7)
        \<and> y = poll_n d (Suc n) t"
    and eq: "(case STFlash_readStatus d t of (status, s') \<Rightarrow>
                if status AND 0x01 \<noteq> 0 then poll d s' else Some s') = Some y"
  let ?t = "snd (STFlash_readStatus d t)"
  have eq': "(if data_out d (samples t + 7) then poll d ?t else Some ?t) = Some y"
    using eq by (simp add: split_beta readStatus_fields(1) status_busy)
  show "\<exists>n. (\<forall>j<n. data_out d (samples t + 8 * j + 7)) \<and> \<not> data_out d (samples t + 8 * n + 7)
        \<and> y = poll_n d (Suc n) t"
  proof (cases "data_out d (samples t + 7)")
    case False
    then have "y = poll_n d (Suc 0) t" using eq' by simp
    with False show ?thesis by (intro exI[where x = 0]) simp
  next
    case True
    from True eq' have "poll d ?t = Some y" by simp
    from IH[OF this] obtain n where n: "\<forall>j<n. data_out d (samples ?t + 8 * j + 7)"
      "\<not> data_out d (samples ?t + 8 * n + 7)" "y = poll_n d (Suc n) ?t" by blast
    have "\<forall>j<Suc n. data_out d (samples t + 8 * j + 7)"
    proof (intro allI impI)
      fix j assume "j < Suc n"
      then show "data_out d (samples t + 8 * j + 7)"
        using True n(1) by (cases j) (auto simp: readStatus_fields add.assoc)
    qed
    moreover have "\<not> data_out d (samples t + 8 * Suc n + 7)"
      using n(2) by (simp add: readStatus_fields add.assoc)
    moreover have "y = poll_n d (Suc (Suc n)) t" using n(3) by simp
    ultimately show ?thesis by blast
  qed
qed

lemma poll_Some_iff:
  "(WriteBlock_poll dev s = Some s') =
     (\<exists>n. status_polls_until_clear dev n s \<and> s' = poll_n dev n s)"
proof
  assume "WriteBlock_poll dev s = Some s'"
  from poll_returned[OF this] obtain n where
    "\<forall>j<n. data_out dev (samples s + 8 * j + 7)" "\<not> data_out dev (samples s + 8 * n + 7)"
    "s' = poll_n dev (Suc n) s" by blast
  then have "status_polls_until_clear dev (Suc n) s \<and> s' = poll_n dev (Suc n) s"
    by (simp add: status_polls_until_clear_samples)
  then show "\<exists>n. status_polls_until_clear dev n s \<and> s' = poll_n dev n s" by blast
next
  assume "\<exists>n. status_polls_until_clear dev n s \<and> s' = poll_n dev n s"
  then obtain n where n: "status_polls_until_clear dev n s" "s' = poll_n dev n s" by blast
  then obtain m where m: "n = Suc m" by (cases n) (simp_all add: status_polls_until_clear_def)
  have "WriteBlock_poll dev s = Some (poll_n dev (Suc m) s)"
    using n(1) unfolding m status_polls_until_clear_samples
    by (intro poll_returns) simp_all
  then show "WriteBlock_poll dev s = Some s'" using n(2) m by simp
qed

lemma poll_returns_iff:
  "(WriteBlock_poll dev s \<noteq> None) = (\<exists>j. \<not> data_out dev (samples s + 8 * j + 7))"
proof
  assume "WriteBlock_poll dev s \<noteq> None"
  then obtain s' where "WriteBlock_poll dev s = Some s'" by blast
  from poll_returned[OF this] show "\<exists>j. \<not> data_out dev (samples s + 8 * j + 7)" by blast
next
  assume ex: "\<exists>j. \<not> data_out dev (samples s + 8 * j + 7)"
  define n where "n = (LEAST j. \<not> data_out dev (samples s + 8 * j + 7))"
  have "\<not> data_out dev (samples s + 8 * n + 7)" unfolding n_def using ex by (rule LeastI_ex)
  moreover have "\<forall>j<n. data_out dev (samples s + 8 * j + 7)"
    unfolding n_def using not_less_Least by blast
  ultimately show "WriteBlock_poll dev s \<noteq> None"
    using poll_returns by simp
qed

lemma WriteBlock_loop_step:
  "i < unat sz \<Longrightarrow> WriteBlock_loop dev i A buf sz s =
     (case WriteBlock_poll dev (delay_us 10 (STFlash_Write1Byte (A + of_nat i) (buf i) s)) of
        None \<Rightarrow> None
      | Some s' \<Rightarrow> WriteBlock_loop dev (Suc i) A buf sz s')"
  by (subst WriteBlock_loop.simps) (simp cong: option.case_cong)

lemma WriteBlock_loop_stop: "unat sz \<le> i \<Longrightarrow> WriteBlock_loop dev i A buf sz s = Some s"
  by (subst WriteBlock_loop.simps) simp

lemma WriteBlock_loop_iff:
  "i \<le> unat sz \<Longrightarrow>
     (WriteBlock_loop dev i A buf sz s = Some s') =
     (\<exists>ns. length ns = unat sz - i \<and> WriteBlock_spec dev ns i A buf s = Some s')"
proof (induction "unat sz - i" arbitrary: i s)
  case 0
  then show ?case by (auto simp add: WriteBlock_loop_stop)
next
  case (Suc m)
  from Suc.hyps(2) have i: "i < unat sz" and m: "m = unat sz - Suc i" by simp_all
  let ?t = "delay_us 10 (STFlash_Write1Byte (A + of_nat i) (buf i) s)"
  have ih: "(WriteBlock_loop dev (Suc i) A buf sz u = Some s') =
     (\<exists>ns. length ns = m \<and> WriteBlock_spec dev ns (Suc i) A buf u = Some s')" for u
    using Suc.hyps(1)[of "Suc i" u] i m by simp
  have len: "unat sz - i = Suc m" using Suc.hyps(2) by simp
  show ?case
  proof
    assume "WriteBlock_loop dev i A buf sz s = Some s'"
    then obtain u where u: "WriteBlock_poll dev ?t = Some u"
      and l: "WriteBlock_loop dev (Suc i) A buf sz u = Some s'"
      by (auto simp add: WriteBlock_loop_step[OF i] split: option.splits)
    from u obtain n where n: "status_polls_until_clear dev n ?t" "u = poll_n dev n ?t"
      unfolding poll_Some_iff by blast
    from l obtain ns where ns: "length ns = m" "WriteBlock_spec dev ns (Suc i) A buf u = Some s'"
      unfolding ih by blast
    have "length (n # ns) = unat sz - i \<and> WriteBlock_spec dev (n # ns) i A buf s = Some s'"
      using n ns len by simp
    then show "\<exists>ns. length ns = unat sz - i \<and> WriteBlock_spec dev ns i A buf s = Some s'"
      by blast
  next
    assume "\<exists>ns. length ns = unat sz - i \<and> WriteBlock_spec dev ns i A buf s = Some s'"
    then obtain ns where ns: "length ns = Suc m" "WriteBlock_spec dev ns i A buf s = Some s'"
      unfolding len by blast
    then obtain n ns' where c: "ns = n # ns'" by (cases ns) simp_all
    from ns(2) have ok: "status_polls_until_clear dev n ?t"
      and r: "WriteBlock_spec dev ns' (Suc i) A buf (poll_n dev n ?t) = Some s'"
      unfolding c by (simp_all add: Let_def split: if_splits)
    have "WriteBlock_poll dev ?t = Some (poll_n dev n ?t)"
      unfolding poll_Some_iff using ok by blast
    moreover have "WriteBlock_loop dev (Suc i) A buf sz (poll_n dev n ?t) = Some s'"
      unfolding ih using r ns(1) c by auto
    ultimately show "WriteBlock_loop dev i A buf sz s = Some s'"
      by (simp add: WriteBlock_loop_step[OF i])
  qed
qed

subsection \<open>Frames of the commands\<close>

lemma probe_cases: "p = \<lparr>sel = sel p, clk = clk p, mosi = mosi p, bits = bits p, closed = closed p\<rparr>"
  by simp

lemma probe_inputs [simp]: "probe_run (map Input bs) p = p"
  by (induction bs) simp_all

lemma probe_WriteEnable:
  "sel p \<Longrightarrow> probe_run WriteEnable_events p =
     \<lparr>sel = True, clk = False, mosi = False, bits = [], closed = closed p @ [byte_bits 0x06]\<rparr>"
  by (subst probe_cases[of p]) (simp add: WriteEnable_events_def probe_simps del: probe.surjective)

lemma probe_WriteDisable:
  "sel p \<Longrightarrow> probe_run WriteDisable_events p =
     \<lparr>sel = True, clk = False, mosi = False, bits = [], closed = closed p @ [byte_bits 0x04]\<rparr>"
  by (subst probe_cases[of p]) (simp add: WriteDisable_events_def probe_simps)

lemma probe_readStatus:
  "sel p \<Longrightarrow> length bs = 8 \<Longrightarrow> probe_run (readStatus_events bs) p =
     \<lparr>sel = True, clk = False, mosi = True, bits = [], closed = closed p @ [status_frame]\<rparr>"
  by (subst probe_cases[of p]) (simp add: readStatus_events_def probe_simps status_frame_def)

lemma probe_Write1Byte:
  "sel p \<Longrightarrow> probe_run (Write1Byte_events A d) p =
     \<lparr>sel = True, clk = False, mosi = bit d 0, bits = [],
      closed = closed p @ [byte_bits 0x06, byte_bits 0x02 @ address_bits A @ byte_bits d]\<rparr>"
  by (simp add: Write1Byte_events_def probe_WriteEnable probe_simps)

lemma probe_poll_events:
  "sel p \<Longrightarrow> sel (probe_run (poll_events dev k n) p) \<and>
     closed (probe_run (poll_events dev k n) p) = closed p @ replicate n status_frame"
proof (induction n arbitrary: k p)
  case 0
  then show ?case by simp
next
  case (Suc n)
  let ?q = "probe_run (readStatus_events (sampled dev k 8)) p"
  have q: "sel ?q" "closed ?q = closed p @ [status_frame]"
    using Suc.prems by (simp_all add: probe_readStatus)
  show ?case
    using Suc.IH[OF q(1), of "k + 8"] q(2) by (simp add: replicate_append_same)
qed

lemma probe_WB_events:
  "sel p \<Longrightarrow> sel (probe_run (WB_events dev k ns i A buf) p) \<and>
     closed (probe_run (WB_events dev k ns i A buf) p) = closed p @ WB_frames ns i A buf"
proof (induction ns arbitrary: k i p)
  case Nil
  then show ?case by simp
next
  case (Cons n ns)
  let ?q = "probe_run (Write1Byte_events (A + of_nat i) (buf i)) p"
  let ?r = "probe_run (poll_events dev k n) ?q"
  have q: "sel ?q" "closed ?q = closed p
      @ [byte_bits 0x06, byte_bits 0x02 @ address_bits (A + of_nat i) @ byte_bits (buf i)]"
    using Cons.prems by (simp_all add: probe_Write1Byte)
  have r: "sel ?r" "closed ?r = closed ?q @ replicate n status_frame"
    using probe_poll_events[OF q(1), of dev k n] by simp_all
  show ?case
    using Cons.IH[OF r(1), of "k + 8 * n" "Suc i"] r(2) q(2) by simp
qed

lemma WB_frames_length: "length (WB_frames ns i A buf) = 2 * length ns + sum_list ns"
  by (induction ns arbitrary: i) simp_all

lemma WB_frames_no_disable: "byte_bits 0x04 \<notin> set (WB_frames ns i A buf)"
proof (induction ns arbitrary: i)
  case Nil
  then show ?case by simp
next
  case (Cons n ns)
  have l: "byte_bits 0x04 \<noteq> f" if "length f \<noteq> 8" for f
    using that byte_bits_length by blast
  have "byte_bits 0x04 \<noteq> byte_bits 0x06" by (simp add: byte_bits_def)
  moreover have "byte_bits 0x04 \<noteq> byte_bits 0x02 @ address_bits (A + of_nat i) @ byte_bits (buf i)"
    by (rule l) simp
  moreover have "byte_bits 0x04 \<noteq> status_frame"
    by (rule l) (simp add: status_frame_def)
  ultimately show ?case using Cons.IH by simp
qed

lemma WriteBlock_spec_fields:
  "WriteBlock_spec dev ns i A buf s = Some s' \<Longrightarrow>
     trace s' = trace s @ WB_events dev (samples s) ns i A buf
     \<and> select_pin s' = (if ns = [] then select_pin s else True)
     \<and> (\<forall>n\<in>set ns. 0 < n)"
proof (induction ns arbitrary: i s)
  case Nil
  then show ?case by simp
next
  case (Cons n ns)
  let ?t = "delay_us 10 (STFlash_Write1Byte (A + of_nat i) (buf i) s)"
  from Cons.prems have ok: "status_polls_until_clear dev n ?t"
    and r: "WriteBlock_spec dev ns (Suc i) A buf (poll_n dev n ?t) = Some s'"
    by (simp_all add: Let_def split: if_splits)
  have n: "0 < n" using ok by (simp add: status_polls_until_clear_def)
  have t: "trace ?t = trace s @ Write1Byte_events (A + of_nat i) (buf i) @ [Delay_us 10]"
    by (simp add: Write1Byte_fields Write1Byte_events_def WriteEnable_events_def)
  show ?case
    using Cons.IH[OF r] n t by (simp add: Write1Byte_fields)
qed

lemma frames_eq:
  "trace s' = trace s @ es \<Longrightarrow> frames s s' = closed (probe_run es (probe_of s))"
  by (simp add: frames_def emitted_eq)

lemma probe_of_simps [simp]: "sel (probe_of s) = select_pin s" "closed (probe_of s) = []"
  by (simp_all add: probe_of_def)

lemma edges_blocks:
  "select_edges True WriteEnable_events = [False, True]"
  "select_level True WriteEnable_events = True"
  "select_edges True WriteDisable_events = [False, True]"
  "select_level True WriteDisable_events = True"
  "select_edges True (readStatus_events bs) = [False, True]"
  "select_level True (readStatus_events bs) = True"
  "select_edges True (Write1Byte_events A d) = [False, True, False, True]"
  "select_level True (Write1Byte_events A d) = True"
  by (simp_all add: WriteEnable_events_def WriteDisable_events_def readStatus_events_def
        Write1Byte_events_def select_append select_blocks)

lemma edges_poll_events:
  "select_edges True (poll_events dev k n) = concat (replicate n [False, True])
   \<and> select_level True (poll_events dev k n) = True"
  by (induction n arbitrary: k) (simp_all add: select_append edges_blocks)

lemma edges_WB_events:
  "select_edges True (WB_events dev k ns i A buf)
     = concat (replicate (2 * length ns + sum_list ns) [False, True])
   \<and> select_level True (WB_events dev k ns i A buf) = True"
proof (induction ns arbitrary: k i)
  case Nil
  then show ?case by simp
next
  case (Cons n ns)
  have "concat (replicate (2 * length (n # ns) + sum_list (n # ns)) [False, True])
      = [False, True, False, True] @ concat (replicate n [False, True])
          @ concat (replicate (2 * length ns + sum_list ns) [False, True])"
    by (simp add: replicate_add add.commute add.left_commute)
  then show ?case
    using Cons.IH[of "k + 8 * n" "Suc i"] edges_poll_events[of dev k n]
    by (simp add: select_append edges_blocks)
qed

lemma waitUntilReady_Some_iff:
  "(STFlash_waitUntilReady dev s = Some s') =
     (\<exists>n. (\<forall>j<n. data_out dev (samples s + j)) \<and> \<not> data_out dev (samples s + n)
        \<and> s' = chip_deselect (clock_in dev 8
                 (spin_n dev (Suc n) (STFlash_SendByte 0x05 (chip_select s)))))"
proof -
  let ?t = "STFlash_SendByte 0x05 (chip_select s)"
  have w: "STFlash_waitUntilReady dev s =
      (case waitUntilReady_spin dev ?t of None \<Rightarrow> None
       | Some u \<Rightarrow> Some (chip_deselect (clock_in dev 8 u)))"
    by (simp add: STFlash_waitUntilReady_def GetByte_eq Let_def cong: option.case_cong)
  have st: "samples ?t = samples s" by simp
  show ?thesis
  proof
    assume "STFlash_waitUntilReady dev s = Some s'"
    then obtain u where u: "waitUntilReady_spin dev ?t = Some u"
      and s': "s' = chip_deselect (clock_in dev 8 u)"
      unfolding w by (auto split: option.splits)
    from spin_returned[OF u] s' show "\<exists>n. (\<forall>j<n. data_out dev (samples s + j))
        \<and> \<not> data_out dev (samples s + n)
        \<and> s' = chip_deselect (clock_in dev 8 (spin_n dev (Suc n) ?t))"
      unfolding st by blast
  next
    assume "\<exists>n. (\<forall>j<n. data_out dev (samples s + j)) \<and> \<not> data_out dev (samples s + n)
        \<and> s' = chip_deselect (clock_in dev 8 (spin_n dev (Suc n) ?t))"
    then obtain n where n: "\<forall>j<n. data_out dev (samples ?t + j)"
      "\<not> data_out dev (samples ?t + n)"
      "s' = chip_deselect (clock_in dev 8 (spin_n dev (Suc n) ?t))"
      unfolding st by blast
    from spin_returns[OF n(1) n(2)] n(3) show "STFlash_waitUntilReady dev s = Some s'"
      unfolding w by simp
  qed
qed

lemma waitUntilReady_returns_iff:
  "(STFlash_waitUntilReady dev s \<noteq> None) = (\<exists>k. \<not> data_out dev (samples s + k))"
proof -
  let ?t = "STFlash_SendByte 0x05 (chip_select s)"
  have "(STFlash_waitUntilReady dev s \<noteq> None) = (waitUntilReady_spin dev ?t \<noteq> None)"
    by (simp add: STFlash_waitUntilReady_def Let_def split_beta split: option.splits)
  then show ?thesis
    using spin_returns_iff[of dev ?t] by simp
qed

lemma waitUntilReady_trace:
  assumes "STFlash_waitUntilReady dev s = Some s'"
  shows "\<exists>n. trace s' = trace s @ select_events @ send_events 0x05
           @ map Input (sampled dev (samples s) (Suc n))
           @ recv_events (sampled dev (samples s + Suc n) 8) @ deselect_events"
    and "select_pin s'"
proof -
  from assms obtain n where
    s': "s' = chip_deselect (clock_in dev 8
                 (spin_n dev (Suc n) (STFlash_SendByte 0x05 (chip_select s))))"
    unfolding waitUntilReady_Some_iff by blast
  have "trace s' = trace s @ select_events @ send_events 0x05
           @ map Input (sampled dev (samples s) (Suc n))
           @ recv_events (sampled dev (samples s + Suc n) 8) @ deselect_events"
    unfolding s'
    by (simp add: trace_simps del: chip_select_fields(5) chip_deselect_fields(5)
          SendByte_fields(5) clock_in_fields(5) spin_n.simps)
  then show "\<exists>n. trace s' = trace s @ select_events @ send_events 0x05
           @ map Input (sampled dev (samples s) (Suc n))
           @ recv_events (sampled dev (samples s + Suc n) 8) @ deselect_events"
    by blast
  show "select_pin s'" unfolding s' by simp
qed

lemma select_inputs [simp]:
  "select_edges lvl (map Input bs) = []" "select_level lvl (map Input bs) = lvl"
  by (induction bs) simp_all

lemma WriteBlock_Some_iff:
  "(STFlash_WriteBlock dev A buf sz s = Some s') =
     (\<exists>ns s0. length ns = unat sz \<and> WriteBlock_spec dev ns 0 A buf s = Some s0
        \<and> s' = STFlash_WriteDisable s0)"
proof -
  have "(STFlash_WriteBlock dev A buf sz s = Some s') =
      (\<exists>s0. WriteBlock_loop dev 0 A buf sz s = Some s0 \<and> s' = STFlash_WriteDisable s0)"
    by (auto simp add: STFlash_WriteBlock_def split: option.splits)
  then show ?thesis
    using WriteBlock_loop_iff[of 0 sz dev A buf s] by auto
qed

lemma WriteBlock_trace:
  assumes "STFlash_WriteBlock dev A buf sz s = Some s'"
  shows "\<exists>ns. length ns = unat sz \<and> (\<forall>n\<in>set ns. 0 < n)
           \<and> trace s' = trace s @ WB_events dev (samples s) ns 0 A buf @ WriteDisable_events"
    and "select_pin s'"
proof -
  from assms obtain ns s0 where ns: "length ns = unat sz"
    "WriteBlock_spec dev ns 0 A buf s = Some s0" "s' = STFlash_WriteDisable s0"
    unfolding WriteBlock_Some_iff by blast
  from WriteBlock_spec_fields[OF ns(2)] ns(1,3)
  have "length ns = unat sz \<and> (\<forall>n\<in>set ns. 0 < n)
           \<and> trace s' = trace s @ WB_events dev (samples s) ns 0 A buf @ WriteDisable_events"
    by (simp add: WriteDisable_fields WriteDisable_events_def)
  then show "\<exists>ns. length ns = unat sz \<and> (\<forall>n\<in>set ns. 0 < n)
           \<and> trace s' = trace s @ WB_events dev (samples s) ns 0 A buf @ WriteDisable_events"
    by blast
  show "select_pin s'" using ns(3) by (simp add: WriteDisable_fields)
qed

lemma frames_readStatus:
  "select_pin s \<Longrightarrow> frames s (snd (STFlash_readStatus dev s)) = [status_frame]"
  using frames_eq[OF readStatus_fields(6)]
    probe_readStatus[of "probe_of s" "sampled dev (samples s) 8"]
  by (simp add: readStatus_events_def)

lemma frames_WriteEnable:
  "select_pin s \<Longrightarrow> frames s (STFlash_WriteEnable s) = [byte_bits 0x06]"
  using frames_eq[OF WriteEnable_fields(5)] probe_WriteEnable[of "probe_of s"]
  by (simp add: WriteEnable_events_def)

lemma frames_WriteDisable:
  "select_pin s \<Longrightarrow> frames s (STFlash_WriteDisable s) = [byte_bits 0x04]"
  using frames_eq[OF WriteDisable_fields(5)] probe_WriteDisable[of "probe_of s"]
  by (simp add: WriteDisable_events_def)

lemma frames_Write1Byte:
  "select_pin s \<Longrightarrow> frames s (STFlash_Write1Byte A d s) =
     [byte_bits 0x06, byte_bits 0x02 @ address_bits A @ byte_bits d]"
  using frames_eq[OF Write1Byte_fields(5)] probe_Write1Byte[of "probe_of s" A d]
  by (simp add: Write1Byte_events_def WriteEnable_events_def)

lemma frames_writeStatus:
  "select_pin s \<Longrightarrow> frames s (STFlash_writeStatus v s) =
     [byte_bits 0x06, byte_bits 0x01 @ byte_bits v, byte_bits 0x04]"
proof -
  assume s: "select_pin s"
  have "probe_run (select_events @ send_events 0x06 @ deselect_events
       @ select_events @ send_events 0x01 @ send_events v @ deselect_events
       @ select_events @ send_events 0x04 @ deselect_events) (probe_of s)
     = \<lparr>sel = True, clk = False, mosi = False, bits = [],
        closed = [byte_bits 0x06, byte_bits 0x01 @ byte_bits v, byte_bits 0x04]\<rparr>"
    using s by (subst probe_cases[of "probe_of s"]) (simp add: probe_simps)
  then show ?thesis
    using frames_eq[OF writeStatus_fields(5)] by simp
qed

lemma frames_ReadBlock:
  "select_pin s \<Longrightarrow> frames s (snd (STFlash_ReadBlock dev A buffer sz s)) =
     [byte_bits 0x03 @ address_bits A @ replicate (8 * unat sz) (bit A 0)]"
proof -
  assume s: "select_pin s"
  have "probe_run (select_events @ send_events 0x03 @ address_events A
       @ recv_events (sampled dev (samples s) (8 * unat sz)) @ deselect_events) (probe_of s)
     = \<lparr>sel = True, clk = False, mosi = bit A 0, bits = [],
        closed = [byte_bits 0x03 @ address_bits A @ replicate (8 * unat sz) (bit A 0)]\<rparr>"
    using s by (subst probe_cases[of "probe_of s"]) (simp add: probe_simps)
  then show ?thesis
    using frames_eq[OF ReadBlock_fields(6)] by simp
qed

lemma frames_EraseBlock:
  "select_pin s \<Longrightarrow> frames s (STFlash_EraseBlock A s) =
     [byte_bits 0x06, byte_bits 0xD8 @ address_bits A, byte_bits 0x04]"
proof -
  assume s: "select_pin s"
  have "probe_run (select_events @ send_events 0x06 @ deselect_events
       @ select_events @ send_events 0xD8 @ address_events A
       @ [Output FLASH_SELECT True] @ deselect_events
       @ select_events @ send_events 0x04 @ deselect_events) (probe_of s)
     = \<lparr>sel = True, clk = False, mosi = False, bits = [],
        closed = [byte_bits 0x06, byte_bits 0xD8 @ address_bits A, byte_bits 0x04]\<rparr>"
    using s by (subst probe_cases[of "probe_of s"])
      (simp add: probe_simps probe_deselect_again)
  then show ?thesis
    using frames_eq[OF EraseBlock_fields(5)] by simp
qed

lemma frames_waitUntilReady:
  assumes "STFlash_waitUntilReady dev s = Some s'" "select_pin s"
  shows "frames s s' = [status_frame]"
proof -
  from waitUntilReady_trace(1)[OF assms(1)] obtain n where
    t: "trace s' = trace s @ select_events @ send_events 0x05
           @ map Input (sampled dev (samples s) (Suc n))
           @ recv_events (sampled dev (samples s + Suc n) 8) @ deselect_events" by blast
  have "probe_run (select_events @ send_events 0x05
           @ map Input (sampled dev (samples s) (Suc n))
           @ recv_events (sampled dev (samples s + Suc n) 8) @ deselect_events) (probe_of s)
     = \<lparr>sel = True, clk = False, mosi = True, bits = [], closed = [status_frame]\<rparr>"
    using assms(2) by (subst probe_cases[of "probe_of s"])
      (simp add: probe_simps status_frame_def del: sampled_Suc)
  then show ?thesis
    using frames_eq[OF t] by simp
qed

lemma frames_WriteBlock:
  assumes "STFlash_WriteBlock dev A buf sz s = Some s'" "select_pin s"
  shows "\<exists>ns. length ns = unat sz \<and> (\<forall>n\<in>set ns. 0 < n)
           \<and> frames s s' = WB_frames ns 0 A buf @ [byte_bits 0x04]"
proof -
  from WriteBlock_trace(1)[OF assms(1)] obtain ns where ns: "length ns = unat sz"
    "\<forall>n\<in>set ns. 0 < n"
    "trace s' = trace s @ WB_events dev (samples s) ns 0 A buf @ WriteDisable_events" by blast
  let ?q = "probe_run (WB_events dev (samples s) ns 0 A buf) (probe_of s)"
  have q: "sel ?q" "closed ?q = WB_frames ns 0 A buf"
    using probe_WB_events[of "probe_of s" dev "samples s" ns 0 A buf] assms(2) by simp_all
  have "frames s s' = WB_frames ns 0 A buf @ [byte_bits 0x04]"
    using frames_eq[OF ns(3)] q by (simp add: probe_WriteDisable)
  with ns(1,2) show ?thesis by blast
qed

subsection \<open>Bit order\<close>

lemma di_levels_send_cells: "di_levels (concat (map send_cell bs)) = bs"
  by (induction bs) (simp_all add: send_cell_def)

lemma send_cell_bits:
  "concat (map send_cell (byte_bits v)) =
     concat (map (\<lambda>k. [Output FLASH_DI (bit v k), Output FLASH_CLOCK True,
                        Delay_cycles SCLKDELAY, Output FLASH_CLOCK False,
                        Delay_cycles SCLKDELAY]) [7, 6, 5, 4, 3, 2, 1, 0])"
  by (simp add: byte_bits_def send_cell_def SCLKDELAY_def)

text \<open>
  Claim C5. \<open>STFlash_SendByte\<close> puts the eight bits of its argument on the wire with
  bit 7 first: for each bit, from bit 7 down to bit 0, it drives \<open>FLASH_DI\<close> to the bit,
  raises the clock, waits \<open>SCLKDELAY\<close> cycles, lowers the clock and waits \<open>SCLKDELAY\<close>
  cycles again, and it does nothing else. The levels driven on \<open>FLASH_DI\<close> are therefore
  the bits of the byte, most significant first; for \<open>0xB0\<close> (binary 10110000) they are
  1, 0, 1, 1, 0, 0, 0, 0.
\<close>

theorem SendByte_msb_first:
  "emitted s (STFlash_SendByte v s) =
     concat (map (\<lambda>k. [Output FLASH_DI (bit v k), Output FLASH_CLOCK True,
                        Delay_cycles SCLKDELAY, Output FLASH_CLOCK False,
                        Delay_cycles SCLKDELAY]) [7, 6, 5, 4, 3, 2, 1, 0])
   \<and> di_levels (emitted s (STFlash_SendByte v s)) = byte_bits v
   \<and> di_levels (emitted s (STFlash_SendByte 0xB0 s))
       = [True, False, True, True, False, False, False, False]"
proof -
  have e: "emitted s (STFlash_SendByte w s) = concat (map send_cell (byte_bits w))" for w
    by (rule emitted_eq) simp
  have d: "di_levels (emitted s (STFlash_SendByte w s)) = byte_bits w" for w
    unfolding e by (rule di_levels_send_cells)
  have "byte_bits 0xB0 = [True, False, True, True, False, False, False, False]"
    by (simp add: byte_bits_def)
  with d[of "0xB0"] have "di_levels (emitted s (STFlash_SendByte 0xB0 s))
       = [True, False, True, True, False, False, False, False]"
    by simp
  with e[of v] d[of v] show ?thesis
    by (simp only: send_cell_bits simp_thms)
qed

theorem SendByte_msb_first_witness:
  "di_levels (emitted fresh (STFlash_SendByte 0x01 fresh))
     = [False, False, False, False, False, False, False, True]"
  using SendByte_msb_first[where s = fresh and v = "0x01"] by (simp add: byte_bits_def)

lemma byte_bits_shift_in: "length bs = 8 \<Longrightarrow> byte_bits (shift_in 0 bs) = bs"
proof -
  assume l: "length bs = 8"
  have "byte_bits (shift_in 0 bs) = map (\<lambda>k. rev bs ! k) [7, 6, 5, 4, 3, 2, 1, 0]"
    using l by (simp add: byte_bits_def bit_shift_in)
  also have "\<dots> = map (\<lambda>k. bs ! k) [0..<length bs]"
    using l by (simp add: rev_nth upt_8)
  also have "\<dots> = bs"
    by (rule map_nth)
  finally show ?thesis .
qed

lemma sampled_8:
  "sampled dev k 8 = map (\<lambda>j. data_out dev (k + j)) [0, 1, 2, 3, 4, 5, 6, 7]"
proof -
  have "[k..<k + 8] = map (\<lambda>j. k + j) [0..<8]"
    using map_add_upt[of k 8] by (simp add: add.commute)
  then have "sampled dev k 8 = map (\<lambda>j. data_out dev (k + j)) [0..<8]"
    by (simp add: sampled_def comp_def)
  then show ?thesis by (simp only: upt_8)
qed

lemma byte_bits_sampled:
  "byte_bits (shift_in 0 (sampled dev k 8))
     = map (\<lambda>j. data_out dev (k + j)) [0, 1, 2, 3, 4, 5, 6, 7]"
  using byte_bits_shift_in[of "sampled dev k 8"] by (simp add: sampled_8)

text \<open>
  Claim C9. The byte that \<open>STFlash_GetByte\<close> returns is made of the eight levels it
  samples on \<open>FLASH_DO\<close>, the first sample in bit 7 and the last in bit 0. Two runs that
  sample the same eight levels return the same byte, whatever the uninitialised accumulator
  held in either run (the devices \<open>dev\<close> and \<open>dev'\<close> may differ in \<open>stale\<close>). The same
  holds for every byte that \<open>STFlash_getBytes\<close> stores: it does not depend on what the
  buffer held before.
\<close>

theorem GetByte_determined_by_samples:
  "byte_bits (fst (STFlash_GetByte dev s))
     = map (\<lambda>j. data_out dev (samples s + j)) [0, 1, 2, 3, 4, 5, 6, 7]
   \<and> ((\<forall>j<8. data_out dev (samples s + j) = data_out dev' (samples s' + j))
        \<longrightarrow> fst (STFlash_GetByte dev s) = fst (STFlash_GetByte dev' s'))
   \<and> (\<forall>k < unat sz. byte_bits (fst (STFlash_getBytes dev data sz s) k)
         = map (\<lambda>j. data_out dev (samples s + 8 * k + j)) [0, 1, 2, 3, 4, 5, 6, 7])"
proof (intro conjI impI allI)
  show "byte_bits (fst (STFlash_GetByte dev s))
     = map (\<lambda>j. data_out dev (samples s + j)) [0, 1, 2, 3, 4, 5, 6, 7]"
    by (simp only: GetByte_eq fst_conv byte_bits_sampled)
next
  assume "\<forall>j<8. data_out dev (samples s + j) = data_out dev' (samples s' + j)"
  then have "map (\<lambda>j. data_out dev (samples s + j)) [0..<8]
      = map (\<lambda>j. data_out dev' (samples s' + j)) [0..<8]"
    by (intro map_cong[OF refl]) simp
  then have "sampled dev (samples s) 8 = sampled dev' (samples s') 8"
    by (simp only: sampled_8 upt_8)
  then show "fst (STFlash_GetByte dev s) = fst (STFlash_GetByte dev' s')"
    by (simp only: GetByte_eq fst_conv)
next
  fix k assume "k < unat sz"
  then show "byte_bits (fst (STFlash_getBytes dev data sz s) k)
         = map (\<lambda>j. data_out dev (samples s + 8 * k + j)) [0, 1, 2, 3, 4, 5, 6, 7]"
    by (simp only: getBytes_eq fst_conv if_True byte_bits_sampled)
qed

theorem GetByte_determined_by_samples_witness:
  "fst (STFlash_GetByte \<lparr>data_out = even, stale = \<lambda>k. 0xFF\<rparr> fresh)
     = fst (STFlash_GetByte \<lparr>data_out = even, stale = \<lambda>k. 0x00\<rparr> fresh)"
  using GetByte_determined_by_samples[of "\<lparr>data_out = even, stale = \<lambda>k. 0xFF\<rparr>" fresh
          "\<lparr>data_out = even, stale = \<lambda>k. 0x00\<rparr>" fresh 0 "\<lambda>k. 0"]
  by simp

subsection \<open>Addresses\<close>

lemma Make8_mask:
  "Make8 (A AND 0xFFFFFF) 0 = Make8 A 0"
  "Make8 (A AND 0xFFFFFF) 1 = Make8 A 1"
  "Make8 (A AND 0xFFFFFF) 2 = Make8 A 2"
proof -
  have m: "(0xFFFFFF :: int32) = mask 24" by (simp add: mask_eq_exp_minus_1)
  have "Make8 (A AND mask 24) k = Make8 A k" if "k \<le> 2" for k
  proof (rule bit_eqI)
    fix n assume "possible_bit TYPE(int8) n"
    then have "n < 8" by (simp add: possible_bit_word)
    then have "8 * k + n < 24" using that by simp
    then show "bit (Make8 (A AND mask 24) k) n = bit (Make8 A k) n"
      by (simp add: Make8_def bit_ucast_iff bit_drop_bit_eq bit_and_iff bit_mask_iff)
  qed
  then show "Make8 (A AND 0xFFFFFF) 0 = Make8 A 0" "Make8 (A AND 0xFFFFFF) 1 = Make8 A 1"
    "Make8 (A AND 0xFFFFFF) 2 = Make8 A 2"
    unfolding m by simp_all
qed

lemma Make8_congruent:
  assumes "A AND 0xFFFFFF = B AND 0xFFFFFF"
  shows "Make8 A 0 = Make8 B 0" "Make8 A 1 = Make8 B 1" "Make8 A 2 = Make8 B 2"
  using Make8_mask[of A] Make8_mask[of B] assms by simp_all

lemma bits_value_snoc: "bits_value (bs @ [b]) = 2 * bits_value bs + of_bool b"
  by (simp add: bits_value_def)

lemma bits_value_append:
  "bits_value (xs @ ys) = bits_value xs * 2 ^ length ys + bits_value ys"
proof (induction ys rule: rev_induct)
  case Nil
  then show ?case by (simp add: bits_value_def)
next
  case (snoc y ys)
  have "bits_value (xs @ ys @ [y]) = 2 * bits_value (xs @ ys) + of_bool y"
    using bits_value_snoc[of "xs @ ys" y] by simp
  then show ?case
    by (simp add: snoc.IH bits_value_snoc algebra_simps)
qed

lemma bits_value_horner: "bits_value bs = horner_sum of_bool 2 (rev bs)"
  by (induction bs rule: rev_induct) (simp_all add: bits_value_snoc, simp add: bits_value_def)

lemma bits_value_byte_bits: "bits_value (byte_bits v) = unat v"
proof -
  have "map (bit (unat v)) [0..<8] = map (bit v) [0..<8]"
    by (intro map_cong[OF refl]) (simp add: bit_unsigned_iff)
  then have "bits_value (byte_bits v) = horner_sum of_bool 2 (map (bit (unat v)) [0..<8])"
    by (simp only: bits_value_horner rev_byte_bits)
  also have "\<dots> = take_bit 8 (unat v)"
    by (rule horner_sum_bit_eq_take_bit)
  also have "\<dots> = unat v"
    using unsigned_less[of v, where ?'a = nat] by (simp add: take_bit_nat_eq_self)
  finally show ?thesis .
qed

lemma unat_Make8: "unat (Make8 A k) = (unat A div 2 ^ (8 * k)) mod 256"
proof -
  have "unat (Make8 A k) = take_bit 8 (drop_bit (8 * k) (unat A))"
    by (simp only: Make8_def unsigned_ucast_eq unat_drop_bit_eq) simp
  then show ?thesis
    by (simp add: drop_bit_eq_div take_bit_eq_mod)
qed

lemma three_bytes:
  "(n::nat) mod 16777216 = n div 65536 mod 256 * 65536 + n div 256 mod 256 * 256 + n mod 256"
proof -
  have "n mod (256 * 65536) = 256 * (n div 256 mod 65536) + n mod 256"
    by (rule mod_mult2_eq)
  moreover have "n div 256 mod (256 * 256) = 256 * (n div 256 div 256 mod 256) + n div 256 mod 256"
    by (rule mod_mult2_eq)
  moreover have "n div 256 div 256 = n div 65536"
    by (simp add: div_mult2_eq[symmetric])
  ultimately show ?thesis by simp
qed

lemma bits_value_address: "bits_value (address_bits A) = unat A mod 2 ^ 24"
proof -
  have "bits_value (address_bits A)
      = unat (Make8 A 2) * 65536 + unat (Make8 A 1) * 256 + unat (Make8 A 0)"
    by (simp add: address_bits_def bits_value_append bits_value_byte_bits)
  also have "\<dots> = (unat A div 65536) mod 256 * 65536 + (unat A div 256) mod 256 * 256
      + unat A mod 256"
    by (simp add: unat_Make8)
  also have "\<dots> = unat A mod 16777216"
    by (rule three_bytes[symmetric])
  finally show ?thesis by simp
qed

lemma address_field_frame:
  "address_field (byte_bits op @ address_bits A @ rest) = unat A mod 2 ^ 24"
proof -
  have "length (address_bits A) = 24" by (simp add: address_bits_def)
  then have "take 24 (drop 8 (byte_bits op @ address_bits A @ rest)) = address_bits A"
    by simp
  then show ?thesis
    by (simp only: address_field_def bits_value_address)
qed

text \<open>
  Claim C4. With the select line inactive on entry, the probe on the bus sees the
  addressed commands as follows. \<open>STFlash_ReadBlock\<close> is one frame: the opcode \<open>0x03\<close>,
  then byte 2, byte 1 and byte 0 of the address, each most significant bit first, then
  only the clock pulses of the data phase (eight per byte read, \<open>FLASH_DI\<close> resting at
  its last level), so the first four bytes do not depend on the length.
  \<open>STFlash_Write1Byte\<close> is the write-enable frame and then the frame \<open>0x02\<close>, the same
  three address bytes, the data byte. \<open>STFlash_EraseBlock\<close> is the write-enable frame,
  the frame \<open>0xD8\<close> with the same three address bytes, and the write-disable frame.
  For the address \<open>0x012345\<close> the address bytes of \<open>STFlash_ReadBlock\<close> are
  \<open>0x01, 0x23, 0x45\<close>, whatever the length.
\<close>

theorem address_framing:
  "select_pin s \<Longrightarrow>
     frames s (snd (STFlash_ReadBlock dev A buffer sz s))
       = [byte_bits 0x03 @ byte_bits (Make8 A 2) @ byte_bits (Make8 A 1) @ byte_bits (Make8 A 0)
            @ replicate (8 * unat sz) (bit A 0)]
   \<and> frames s (STFlash_Write1Byte A d s)
       = [byte_bits 0x06,
          byte_bits 0x02 @ byte_bits (Make8 A 2) @ byte_bits (Make8 A 1) @ byte_bits (Make8 A 0)
            @ byte_bits d]
   \<and> frames s (STFlash_EraseBlock A s)
       = [byte_bits 0x06,
          byte_bits 0xD8 @ byte_bits (Make8 A 2) @ byte_bits (Make8 A 1) @ byte_bits (Make8 A 0),
          byte_bits 0x04]
   \<and> frames s (snd (STFlash_ReadBlock dev 0x012345 buffer sz s))
       = [byte_bits 0x03 @ byte_bits 0x01 @ byte_bits 0x23 @ byte_bits 0x45
            @ replicate (8 * unat sz) True]"
proof -
  assume s: "select_pin s"
  have "Make8 0x012345 2 = 0x01" "Make8 0x012345 1 = 0x23" "Make8 0x012345 0 = 0x45"
    by (simp_all add: Make8_def)
  then have "address_bits 0x012345 = byte_bits 0x01 @ byte_bits 0x23 @ byte_bits 0x45"
    by (simp only: address_bits_def)
  moreover have "bit (0x012345 :: int32) 0" by simp
  ultimately have "frames s (snd (STFlash_ReadBlock dev 0x012345 buffer sz s))
       = [byte_bits 0x03 @ byte_bits 0x01 @ byte_bits 0x23 @ byte_bits 0x45
            @ replicate (8 * unat sz) True]"
    using frames_ReadBlock[OF s, of dev "0x012345" buffer sz] by simp
  then show ?thesis
    using frames_ReadBlock[OF s, of dev A buffer sz] frames_Write1Byte[OF s, of A d]
      frames_EraseBlock[OF s, of A]
    by (simp add: address_bits_def)
qed

theorem address_framing_witness:
  "select_pin fresh
   \<and> frames fresh (STFlash_Write1Byte 0x012345 0xA5 fresh)
       = [byte_bits 0x06,
          byte_bits 0x02 @ byte_bits 0x01 @ byte_bits 0x23 @ byte_bits 0x45 @ byte_bits 0xA5]"
proof -
  have m: "Make8 0x012345 2 = 0x01" "Make8 0x012345 1 = 0x23" "Make8 0x012345 0 = 0x45"
    by (simp_all add: Make8_def)
  have s: "select_pin fresh" by (simp add: fresh_def)
  from address_framing[OF s, where A = "0x012345" and d = "0xA5"] s show ?thesis
    unfolding m by blast
qed

text \<open>
  Claim C10. No addressed operation looks at the top byte of its 32-bit address
  argument: \<open>STFlash_ReadBlock\<close>, \<open>STFlash_Write1Byte\<close> and \<open>STFlash_EraseBlock\<close> are
  total (they reject nothing), two addresses that agree in their low 24 bits give the same
  result and the same events on the bus, and the 24 bits that follow the opcode in the
  command's frame spell the address modulo \<open>2 ^ 24\<close>.
\<close>

theorem address_truncated_to_24_bits:
  "(A AND 0xFFFFFF = B AND 0xFFFFFF \<longrightarrow>
       STFlash_ReadBlock dev A buffer sz s = STFlash_ReadBlock dev B buffer sz s
     \<and> STFlash_Write1Byte A d s = STFlash_Write1Byte B d s
     \<and> STFlash_EraseBlock A s = STFlash_EraseBlock B s)
   \<and> (select_pin s \<longrightarrow>
       map address_field (frames s (snd (STFlash_ReadBlock dev A buffer sz s)))
         = [unat A mod 2 ^ 24]
     \<and> address_field (frames s (STFlash_Write1Byte A d s) ! 1) = unat A mod 2 ^ 24
     \<and> address_field (frames s (STFlash_EraseBlock A s) ! 1) = unat A mod 2 ^ 24)"
proof (intro conjI impI)
  assume c: "A AND 0xFFFFFF = B AND 0xFFFFFF"
  note m = Make8_congruent[OF c]
  show "STFlash_ReadBlock dev A buffer sz s = STFlash_ReadBlock dev B buffer sz s"
    unfolding STFlash_ReadBlock_def m ..
  show "STFlash_Write1Byte A d s = STFlash_Write1Byte B d s"
    unfolding STFlash_Write1Byte_def m ..
  show "STFlash_EraseBlock A s = STFlash_EraseBlock B s"
    unfolding STFlash_EraseBlock_def m ..
next
  assume s: "select_pin s"
  show "map address_field (frames s (snd (STFlash_ReadBlock dev A buffer sz s)))
         = [unat A mod 2 ^ 24]"
    unfolding frames_ReadBlock[OF s] by (simp only: list.map address_field_frame)
  show "address_field (frames s (STFlash_Write1Byte A d s) ! 1) = unat A mod 2 ^ 24"
    unfolding frames_Write1Byte[OF s] by (simp only: nth_Cons_0 nth_Cons_Suc One_nat_def address_field_frame)
  have "address_field (byte_bits 0xD8 @ address_bits A @ []) = unat A mod 2 ^ 24"
    by (rule address_field_frame)
  then show "address_field (frames s (STFlash_EraseBlock A s) ! 1) = unat A mod 2 ^ 24"
    unfolding frames_EraseBlock[OF s] by simp
qed

theorem address_truncated_to_24_bits_witness:
  "STFlash_Write1Byte 0x01012345 0xA5 fresh = STFlash_Write1Byte 0x00012345 0xA5 fresh
   \<and> address_field (frames fresh (STFlash_Write1Byte 0x01012345 0xA5 fresh) ! 1) = 0x012345"
proof -
  have a: "(0x01012345 :: int32) AND 0xFFFFFF = 0x00012345 AND 0xFFFFFF" by simp
  have s: "select_pin fresh" by (simp add: fresh_def)
  have u: "unat (0x01012345 :: int32) mod 2 ^ 24 = 0x012345" by simp
  note t = address_truncated_to_24_bits[where s = fresh and A = "0x01012345"
      and B = "0x00012345" and d = "0xA5"]
  from t a have "STFlash_Write1Byte 0x01012345 0xA5 fresh = STFlash_Write1Byte 0x00012345 0xA5 fresh"
    by blast
  moreover from t s have "address_field (frames fresh (STFlash_Write1Byte 0x01012345 0xA5 fresh) ! 1)
      = unat (0x01012345 :: int32) mod 2 ^ 24"
    by blast
  ultimately show ?thesis unfolding u by blast
qed

subsection \<open>Select and deselect\<close>

lemma edges_eq:
  "trace s' = trace s @ es \<Longrightarrow> select_edges lvl (emitted s s') = select_edges lvl es"
  by (simp add: emitted_eq)

lemma edges_readStatus:
  "select_edges True (emitted s (snd (STFlash_readStatus dev s))) = [False, True]"
  unfolding edges_eq[OF readStatus_fields(6)]
  by (simp add: select_append select_blocks)

lemma edges_WriteEnable:
  "select_edges True (emitted s (STFlash_WriteEnable s)) = [False, True]"
  unfolding edges_eq[OF WriteEnable_fields(5)]
  by (simp add: select_append select_blocks)

lemma edges_WriteDisable:
  "select_edges True (emitted s (STFlash_WriteDisable s)) = [False, True]"
  unfolding edges_eq[OF WriteDisable_fields(5)]
  by (simp add: select_append select_blocks)

lemma edges_writeStatus:
  "select_edges True (emitted s (STFlash_writeStatus v s))
     = [False, True, False, True, False, True]"
  unfolding edges_eq[OF writeStatus_fields(5)]
  by (simp add: select_append select_blocks)

lemma edges_ReadBlock:
  "select_edges True (emitted s (snd (STFlash_ReadBlock dev A buffer sz s))) = [False, True]"
  unfolding edges_eq[OF ReadBlock_fields(6)]
  by (simp add: select_append select_blocks)

lemma edges_Write1Byte:
  "select_edges True (emitted s (STFlash_Write1Byte A d s)) = [False, True, False, True]"
  unfolding edges_eq[OF Write1Byte_fields(5)]
  by (simp add: select_append select_blocks)

lemma edges_EraseBlock:
  "select_edges True (emitted s (STFlash_EraseBlock A s))
     = [False, True, False, True, False, True]"
  unfolding edges_eq[OF EraseBlock_fields(5)]
  by (simp add: select_append select_blocks)

lemma edges_waitUntilReady:
  assumes "STFlash_waitUntilReady dev s = Some s'"
  shows "select_edges True (emitted s s') = [False, True]"
proof -
  from waitUntilReady_trace(1)[OF assms] obtain n where
    t: "trace s' = trace s @ select_events @ send_events 0x05
           @ map Input (sampled dev (samples s) (Suc n))
           @ recv_events (sampled dev (samples s + Suc n) 8) @ deselect_events" by blast
  show ?thesis
    unfolding edges_eq[OF t] by (simp add: select_append select_blocks del: sampled_Suc)
qed

lemma edges_WriteBlock:
  assumes "STFlash_WriteBlock dev A buf sz s = Some s'"
  shows "\<exists>ns. length ns = unat sz \<and> (\<forall>n\<in>set ns. 0 < n)
           \<and> select_edges True (emitted s s')
               = concat (replicate (2 * unat sz + sum_list ns + 1) [False, True])"
proof -
  from WriteBlock_trace(1)[OF assms] obtain ns where ns: "length ns = unat sz"
    "\<forall>n\<in>set ns. 0 < n"
    "trace s' = trace s @ WB_events dev (samples s) ns 0 A buf @ WriteDisable_events" by blast
  have "select_edges True (emitted s s')
      = concat (replicate (2 * unat sz + sum_list ns) [False, True]) @ [False, True]"
    unfolding edges_eq[OF ns(3)]
    using edges_WB_events[of dev "samples s" ns 0 A buf] ns(1)
    by (simp add: select_append edges_blocks)
  also have "\<dots> = concat (replicate (2 * unat sz + sum_list ns + 1) [False, True])"
  proof -
    have "replicate (m + 1) x = replicate m x @ [x]" for m and x :: "bool list"
      by (simp add: replicate_append_same)
    then show ?thesis
      by (simp only: concat_append concat.simps append_Nil2)
  qed
  finally show ?thesis using ns(1,2) by blast
qed

text \<open>
  Claim C2, as the code has it. With the select line inactive on entry,
  \<open>STFlash_readStatus\<close>, \<open>STFlash_waitUntilReady\<close> (when it returns),
  \<open>STFlash_WriteEnable\<close>, \<open>STFlash_WriteDisable\<close> and \<open>STFlash_ReadBlock\<close> make the
  select line fall once and rise once. \<open>STFlash_Write1Byte\<close> makes it fall and rise twice
  (the write-enable command, then the program command), \<open>STFlash_writeStatus\<close> and
  \<open>STFlash_EraseBlock\<close> three times (write enable, the command, write disable), and
  \<open>STFlash_WriteBlock\<close> of \<open>n\<close> bytes, when it returns, \<open>2 n + p + 1\<close> times, where
  \<open>p\<close> is the number of status polls, at least one for each byte. Falling and rising
  edges alternate, and every call that returns leaves the select line inactive (high).
\<close>

theorem select_deselect_paired:
  "select_pin s \<Longrightarrow>
     select_edges (select_pin s) (emitted s (snd (STFlash_readStatus dev s))) = [False, True]
   \<and> select_pin (snd (STFlash_readStatus dev s))
   \<and> (\<forall>s'. STFlash_waitUntilReady dev s = Some s' \<longrightarrow>
         select_edges (select_pin s) (emitted s s') = [False, True] \<and> select_pin s')
   \<and> select_edges (select_pin s) (emitted s (STFlash_WriteEnable s)) = [False, True]
   \<and> select_pin (STFlash_WriteEnable s)
   \<and> select_edges (select_pin s) (emitted s (STFlash_WriteDisable s)) = [False, True]
   \<and> select_pin (STFlash_WriteDisable s)
   \<and> select_edges (select_pin s) (emitted s (snd (STFlash_ReadBlock dev A buffer sz s)))
       = [False, True]
   \<and> select_pin (snd (STFlash_ReadBlock dev A buffer sz s))
   \<and> select_edges (select_pin s) (emitted s (STFlash_Write1Byte A d s))
       = [False, True, False, True]
   \<and> select_pin (STFlash_Write1Byte A d s)
   \<and> select_edges (select_pin s) (emitted s (STFlash_writeStatus v s))
       = [False, True, False, True, False, True]
   \<and> select_pin (STFlash_writeStatus v s)
   \<and> select_edges (select_pin s) (emitted s (STFlash_EraseBlock A s))
       = [False, True, False, True, False, True]
   \<and> select_pin (STFlash_EraseBlock A s)
   \<and> (\<forall>s'. STFlash_WriteBlock dev A buffer sz s = Some s' \<longrightarrow>
         (\<exists>ns. length ns = unat sz \<and> (\<forall>n\<in>set ns. 0 < n)
            \<and> select_edges (select_pin s) (emitted s s')
                = concat (replicate (2 * unat sz + sum_list ns + 1) [False, True]))
         \<and> select_pin s')"
proof -
  assume s: "select_pin s"
  then have t: "select_pin s = True" by simp
  show ?thesis
    unfolding t
    using edges_waitUntilReady[of dev s] waitUntilReady_trace(2)[of dev s]
      edges_WriteBlock[of dev A buffer sz s] WriteBlock_trace(2)[of dev A buffer sz s]
    by (simp add: edges_readStatus edges_WriteEnable edges_WriteDisable edges_ReadBlock
          edges_Write1Byte edges_writeStatus edges_EraseBlock readStatus_fields
          WriteEnable_fields WriteDisable_fields ReadBlock_fields Write1Byte_fields
          writeStatus_fields EraseBlock_fields)
qed

theorem select_deselect_paired_witness:
  "select_pin fresh
   \<and> select_edges (select_pin fresh) (emitted fresh (STFlash_Write1Byte 0x10 0xA5 fresh))
       = [False, True, False, True]
   \<and> select_pin (STFlash_Write1Byte 0x10 0xA5 fresh)"
proof -
  have s: "select_pin fresh" by (simp add: fresh_def)
  from select_deselect_paired[OF s, where A = "0x10" and d = "0xA5"] s show ?thesis
    by blast
qed

text \<open>
  Claim C2 as the spec words it (exactly one select and one deselect in every command)
  does not hold: on a bus at rest, \<open>STFlash_writeStatus\<close> selects and deselects the
  device three times.
\<close>

theorem writeStatus_selects_three_times:
  "select_edges (select_pin fresh) (emitted fresh (STFlash_writeStatus 0x00 fresh))
     = [False, True, False, True, False, True]
   \<and> select_edges (select_pin fresh) (emitted fresh (STFlash_writeStatus 0x00 fresh))
     \<noteq> [False, True]"
  by code_simp

text \<open>
  Claim C7, as the code has it. With the select line inactive on entry, the probe sees
  one frame (one traversal from select to deselect) for \<open>STFlash_readStatus\<close>,
  \<open>STFlash_waitUntilReady\<close> (when it returns), \<open>STFlash_WriteEnable\<close>,
  \<open>STFlash_WriteDisable\<close> and \<open>STFlash_ReadBlock\<close>; two frames for
  \<open>STFlash_Write1Byte\<close> (write enable, then the program command); three frames for
  \<open>STFlash_writeStatus\<close> and \<open>STFlash_EraseBlock\<close> (write enable, the command, write
  disable). \<open>STFlash_WriteBlock\<close> of \<open>n\<close> bytes, when it returns, makes for each byte
  the two frames of \<open>STFlash_Write1Byte\<close> and one frame for each status poll (at least
  one), and a last write-disable frame: \<open>2 n + p + 1\<close> frames, \<open>p\<close> the number of polls.
\<close>

theorem traversals_per_command:
  "select_pin s \<Longrightarrow>
     frames s (snd (STFlash_readStatus dev s)) = [byte_bits 0x05 @ replicate 8 True]
   \<and> (\<forall>s'. STFlash_waitUntilReady dev s = Some s' \<longrightarrow>
         frames s s' = [byte_bits 0x05 @ replicate 8 True])
   \<and> frames s (STFlash_WriteEnable s) = [byte_bits 0x06]
   \<and> frames s (STFlash_WriteDisable s) = [byte_bits 0x04]
   \<and> length (frames s (snd (STFlash_ReadBlock dev A buffer sz s))) = 1
   \<and> length (frames s (STFlash_Write1Byte A d s)) = 2
   \<and> frames s (STFlash_writeStatus v s)
       = [byte_bits 0x06, byte_bits 0x01 @ byte_bits v, byte_bits 0x04]
   \<and> length (frames s (STFlash_EraseBlock A s)) = 3
   \<and> (\<forall>s'. STFlash_WriteBlock dev A buffer sz s = Some s' \<longrightarrow>
         (\<exists>ns. length ns = unat sz \<and> (\<forall>n\<in>set ns. 0 < n)
            \<and> frames s s' = WB_frames ns 0 A buffer @ [byte_bits 0x04]
            \<and> length (frames s s') = 2 * unat sz + sum_list ns + 1))"
proof -
  assume s: "select_pin s"
  have wb: "\<exists>ns. length ns = unat sz \<and> (\<forall>n\<in>set ns. 0 < n)
            \<and> frames s s' = WB_frames ns 0 A buffer @ [byte_bits 0x04]
            \<and> length (frames s s') = 2 * unat sz + sum_list ns + 1"
    if "STFlash_WriteBlock dev A buffer sz s = Some s'" for s'
  proof -
    from frames_WriteBlock[OF that s] obtain ns where ns: "length ns = unat sz"
      "\<forall>n\<in>set ns. 0 < n" "frames s s' = WB_frames ns 0 A buffer @ [byte_bits 0x04]"
      by blast
    then have "length (frames s s') = 2 * unat sz + sum_list ns + 1"
      by (simp add: WB_frames_length)
    with ns show ?thesis by blast
  qed
  show ?thesis
    using frames_waitUntilReady[of dev s, OF _ s] wb
    by (simp add: frames_readStatus[OF s] frames_WriteEnable[OF s] frames_WriteDisable[OF s]
          frames_ReadBlock[OF s] frames_Write1Byte[OF s] frames_writeStatus[OF s]
          frames_EraseBlock[OF s] status_frame_def)
qed

theorem traversals_per_command_witness:
  "select_pin fresh
   \<and> frames fresh (STFlash_writeStatus 0x1C fresh)
       = [byte_bits 0x06, byte_bits 0x01 @ byte_bits 0x1C, byte_bits 0x04]
   \<and> length (frames fresh (STFlash_EraseBlock 0x100 fresh)) = 3"
proof -
  have s: "select_pin fresh" by (simp add: fresh_def)
  from traversals_per_command[OF s, where v = "0x1C" and A = "0x100"] s show ?thesis
    by blast
qed

text \<open>
  Claim C7 as the spec words it (one traversal in every command but
  \<open>STFlash_WriteBlock\<close>) does not hold: on a bus at rest, \<open>STFlash_Write1Byte\<close> makes
  two frames.
\<close>

theorem Write1Byte_two_traversals:
  "length (frames fresh (STFlash_Write1Byte 0x00 0x00 fresh)) = 2
   \<and> length (frames fresh (STFlash_Write1Byte 0x00 0x00 fresh)) \<noteq> 1"
  by code_simp

subsection \<open>The write-enable latch\<close>

lemma latch_append:
  "write_enable_latch l (fs @ gs) = write_enable_latch (write_enable_latch l fs) gs"
  by (induction fs arbitrary: l) simp_all

lemma byte_bits_4_6: "byte_bits 0x04 \<noteq> byte_bits 0x06" "byte_bits 0x06 \<noteq> byte_bits 0x04"
  by (simp_all add: byte_bits_def)

lemma long_frame_no_opcode:
  "byte_bits op @ address_bits A @ rest \<noteq> byte_bits v"
proof
  assume "byte_bits op @ address_bits A @ rest = byte_bits v"
  then have "length (byte_bits op @ address_bits A @ rest) = length (byte_bits v)"
    by (rule arg_cong)
  then show False by (simp add: address_bits_def)
qed

lemma latch_program_frame:
  "write_enable_latch l [byte_bits 0x06, byte_bits 0x02 @ address_bits A @ byte_bits d]"
  by (simp add: long_frame_no_opcode)

lemma latch_program_frames: "ws \<noteq> [] \<Longrightarrow> write_enable_latch l (program_frames ws)"
proof (induction ws arbitrary: l)
  case Nil
  then show ?case by simp
next
  case (Cons w ws)
  obtain A d where w: "w = (A, d)" by (cases w)
  have p: "program_frames (w # ws)
      = [byte_bits 0x06, byte_bits 0x02 @ address_bits A @ byte_bits d] @ program_frames ws"
    by (simp add: program_frames_def w)
  show ?case
  proof (cases "ws = []")
    case True
    then show ?thesis
      unfolding p by (simp add: program_frames_def long_frame_no_opcode)
  next
    case False
    then show ?thesis
      unfolding p latch_append by (rule Cons.IH)
  qed
qed

lemma program_frames_no_disable: "byte_bits 0x04 \<notin> set (program_frames ws)"
proof (induction ws)
  case Nil
  then show ?case by (simp add: program_frames_def)
next
  case (Cons w ws)
  obtain A d where w: "w = (A, d)" by (cases w)
  have "program_frames (w # ws)
      = [byte_bits 0x06, byte_bits 0x02 @ address_bits A @ byte_bits d] @ program_frames ws"
    by (simp add: program_frames_def w)
  then show ?case
    using Cons.IH long_frame_no_opcode[of "0x02" A "byte_bits d" "0x04"] byte_bits_4_6
    by auto
qed

lemma Write1Byte_calls_fields:
  "select_pin (Write1Byte_calls ws s) = (if ws = [] then select_pin s else True)"
  "trace (Write1Byte_calls ws s)
     = trace s @ concat (map (\<lambda>(A, d). Write1Byte_events A d) ws)"
  by (induction ws arbitrary: s; auto simp add: Write1Byte_fields Write1Byte_events_def
        WriteEnable_events_def)+

lemma probe_Write1Byte_calls:
  "sel p \<Longrightarrow> sel (probe_run (concat (map (\<lambda>(A, d). Write1Byte_events A d) ws)) p) \<and>
     closed (probe_run (concat (map (\<lambda>(A, d). Write1Byte_events A d) ws)) p)
       = closed p @ program_frames ws"
proof (induction ws arbitrary: p)
  case Nil
  then show ?case by (simp add: program_frames_def)
next
  case (Cons w ws)
  obtain A d where w: "w = (A, d)" by (cases w)
  let ?q = "probe_run (Write1Byte_events A d) p"
  have q: "sel ?q" "closed ?q = closed p
      @ [byte_bits 0x06, byte_bits 0x02 @ address_bits A @ byte_bits d]"
    using Cons.prems by (simp_all add: probe_Write1Byte)
  show ?case
    using Cons.IH[OF q(1)] q(2) by (simp add: w program_frames_def)
qed

lemma frames_Write1Byte_calls:
  "select_pin s \<Longrightarrow> frames s (Write1Byte_calls ws s) = program_frames ws"
  using frames_eq[OF Write1Byte_calls_fields(2)] probe_Write1Byte_calls[of "probe_of s" ws]
  by simp

lemma frames_calls_then_disable:
  assumes "select_pin s"
  shows "frames s (STFlash_WriteDisable (Write1Byte_calls ws s))
     = program_frames ws @ [byte_bits 0x04]"
proof -
  let ?es = "concat (map (\<lambda>(A, d). Write1Byte_events A d) ws)"
  have t: "trace (STFlash_WriteDisable (Write1Byte_calls ws s))
      = trace s @ ?es @ WriteDisable_events"
    by (simp add: WriteDisable_fields Write1Byte_calls_fields WriteDisable_events_def)
  have q: "sel (probe_run ?es (probe_of s))"
    "closed (probe_run ?es (probe_of s)) = program_frames ws"
    using probe_Write1Byte_calls[of "probe_of s" ws] assms by simp_all
  show ?thesis
    unfolding frames_eq[OF t] using q by (simp add: probe_WriteDisable)
qed

lemma latch_cleared_by_last_disable: "\<not> write_enable_latch l (fs @ [byte_bits 0x04])"
  unfolding latch_append by (simp add: byte_bits_4_6)

text \<open>
  Claim C6. With the select line inactive on entry, none of the frames of
  \<open>STFlash_Write1Byte\<close> is the write-disable command, and the latch is set after the
  call whatever it was before. The same holds after any non-empty sequence of consecutive
  \<open>STFlash_Write1Byte\<close> calls. The latch is cleared once \<open>STFlash_WriteDisable\<close> is called
  after them, and it is cleared when \<open>STFlash_WriteBlock\<close> returns.
\<close>

theorem Write1Byte_leaves_latch_set:
  "select_pin s \<Longrightarrow>
     byte_bits 0x04 \<notin> set (frames s (STFlash_Write1Byte A d s))
   \<and> write_enable_latch l (frames s (STFlash_Write1Byte A d s))
   \<and> (ws \<noteq> [] \<longrightarrow>
         byte_bits 0x04 \<notin> set (frames s (Write1Byte_calls ws s))
       \<and> write_enable_latch l (frames s (Write1Byte_calls ws s)))
   \<and> \<not> write_enable_latch l (frames s (STFlash_WriteDisable (Write1Byte_calls ws s)))
   \<and> (\<forall>s'. STFlash_WriteBlock dev A buffer sz s = Some s' \<longrightarrow>
         \<not> write_enable_latch l (frames s s'))"
proof -
  assume s: "select_pin s"
  have one: "frames s (STFlash_Write1Byte A d s) = program_frames [(A, d)]"
    by (simp add: frames_Write1Byte[OF s] program_frames_def)
  have wb: "\<not> write_enable_latch l (frames s s')"
    if "STFlash_WriteBlock dev A buffer sz s = Some s'" for s'
    using frames_WriteBlock[OF that s] latch_cleared_by_last_disable by auto
  show ?thesis
    unfolding one frames_Write1Byte_calls[OF s] frames_calls_then_disable[OF s]
    using wb
    by (simp add: program_frames_no_disable latch_program_frames
          latch_cleared_by_last_disable)
qed

theorem Write1Byte_leaves_latch_set_witness:
  "select_pin fresh
   \<and> write_enable_latch False
        (frames fresh (Write1Byte_calls [(0x10, 0x01), (0x11, 0x02)] fresh))
   \<and> \<not> write_enable_latch False
        (frames fresh (STFlash_WriteDisable
           (Write1Byte_calls [(0x10, 0x01), (0x11, 0x02)] fresh)))"
proof -
  have s: "select_pin fresh" by (simp add: fresh_def)
  from Write1Byte_leaves_latch_set[OF s, where l = False
      and ws = "[(0x10, 0x01), (0x11, 0x02)]"] s
  show ?thesis by simp
qed

subsection \<open>Writing a block, and waiting\<close>

lemma WriteBlock_one_disable:
  assumes "STFlash_WriteBlock dev A buf sz s = Some s'" "select_pin s"
  shows "count_list (frames s s') (byte_bits 0x04) = 1" "last (frames s s') = byte_bits 0x04"
proof -
  from frames_WriteBlock[OF assms] obtain ns where
    f: "frames s s' = WB_frames ns 0 A buf @ [byte_bits 0x04]" by blast
  have "count_list (WB_frames ns 0 A buf) (byte_bits 0x04) = 0"
    using WB_frames_no_disable[of ns 0 A buf] by (simp add: count_list_0_iff)
  then show "count_list (frames s s') (byte_bits 0x04) = 1"
    unfolding f by simp
  show "last (frames s s') = byte_bits 0x04"
    unfolding f by simp
qed

text \<open>
  Claim C3. \<open>WriteBlock_spec dev ns 0 A buffer s\<close> is the iteration in the spec's words:
  for the bytes \<open>i = 0, 1, \<dots>\<close> in turn it calls \<open>STFlash_Write1Byte (A + i) (buffer i)\<close>,
  waits 10 microseconds, and reads the status \<open>n\<close> times (\<open>n\<close> the entry of \<open>ns\<close> for
  this byte), where the first \<open>n - 1\<close> reads have bit 0 set and the last one has it
  clear; only then it goes on to the next byte. \<open>STFlash_WriteBlock\<close> returns \<open>s'\<close>
  exactly when, for some numbers of polls \<open>ns\<close>, one for each of the \<open>sz\<close> bytes,
  this iteration followed by one \<open>STFlash_WriteDisable\<close> gives \<open>s'\<close>. When it returns
  (the select line inactive on entry), exactly one of its frames is the write-disable
  command, and it is the last one.
\<close>

theorem WriteBlock_steps:
  "(STFlash_WriteBlock dev A buffer sz s = Some s') =
     (\<exists>ns s0. length ns = unat sz \<and> WriteBlock_spec dev ns 0 A buffer s = Some s0
        \<and> s' = STFlash_WriteDisable s0)
   \<and> (select_pin s \<and> STFlash_WriteBlock dev A buffer sz s = Some s' \<longrightarrow>
         count_list (frames s s') (byte_bits 0x04) = 1
       \<and> last (frames s s') = byte_bits 0x04)"
  using WriteBlock_Some_iff[of dev A buffer sz s s'] WriteBlock_one_disable[of dev A buffer sz s s']
  by blast

theorem WriteBlock_steps_witness:
  "STFlash_WriteBlock \<lparr>data_out = \<lambda>k. False, stale = \<lambda>k. 0\<rparr> 0x100 (\<lambda>i. 0x5A) 2 fresh
     = Some (STFlash_WriteDisable
         (poll_n \<lparr>data_out = \<lambda>k. False, stale = \<lambda>k. 0\<rparr> 1
           (delay_us 10 (STFlash_Write1Byte 0x101 0x5A
             (poll_n \<lparr>data_out = \<lambda>k. False, stale = \<lambda>k. 0\<rparr> 1
               (delay_us 10 (STFlash_Write1Byte 0x100 0x5A fresh)))))))"
proof -
  let ?dev = "\<lparr>data_out = \<lambda>k. False, stale = \<lambda>k. 0\<rparr>"
  let ?s0 = "poll_n ?dev 1 (delay_us 10 (STFlash_Write1Byte 0x101 0x5A
             (poll_n ?dev 1 (delay_us 10 (STFlash_Write1Byte 0x100 0x5A fresh)))))"
  have "WriteBlock_spec ?dev [1, 1] 0 0x100 (\<lambda>i. 0x5A) fresh = Some ?s0"
    by (simp add: status_polls_until_clear_samples Let_def del: poll_n.simps One_nat_def)
  then have "\<exists>ns s0. length ns = unat (2 :: int16)
      \<and> WriteBlock_spec ?dev ns 0 0x100 (\<lambda>i. 0x5A) fresh = Some s0
      \<and> STFlash_WriteDisable ?s0 = STFlash_WriteDisable s0"
    by (intro exI[where x = "[1, 1]"] exI[where x = ?s0]) simp
  with WriteBlock_steps[of ?dev "0x100" "\<lambda>i. 0x5A" 2 fresh "STFlash_WriteDisable ?s0"]
  show ?thesis by blast
qed

lemma WriteBlock_loop_returns:
  assumes "\<forall>k\<ge>K. \<not> data_out dev k"
  shows "i \<le> unat sz \<Longrightarrow> WriteBlock_loop dev i A buf sz s \<noteq> None"
proof (induction "unat sz - i" arbitrary: i s)
  case 0
  then show ?case by (simp add: WriteBlock_loop_stop)
next
  case (Suc m)
  from Suc.hyps(2) have i: "i < unat sz" and m: "m = unat sz - Suc i" by simp_all
  let ?t = "delay_us 10 (STFlash_Write1Byte (A + of_nat i) (buf i) s)"
  have "\<not> data_out dev (samples ?t + 8 * K + 7)" using assms by simp
  then have "WriteBlock_poll dev ?t \<noteq> None"
    unfolding poll_returns_iff by blast
  then obtain u where u: "WriteBlock_poll dev ?t = Some u" by blast
  have "WriteBlock_loop dev (Suc i) A buf sz u \<noteq> None"
    using Suc.hyps(1)[of "Suc i" u] i m by simp
  then show ?case
    by (simp add: WriteBlock_loop_step[OF i] u)
qed

lemma WriteBlock_never_returns:
  assumes "\<forall>k. data_out dev k" "sz \<noteq> 0"
  shows "STFlash_WriteBlock dev A buf sz s = None"
proof -
  have "0 < unat sz" using assms(2) by (simp add: unat_gt_0)
  let ?t = "delay_us 10 (STFlash_Write1Byte (A + of_nat 0) (buf 0) s)"
  have "WriteBlock_poll dev ?t = None"
    using poll_returns_iff[of dev ?t] assms(1) by blast
  then have "WriteBlock_loop dev 0 A buf sz s = None"
    by (simp add: WriteBlock_loop_step[OF \<open>0 < unat sz\<close>])
  then show ?thesis by (simp add: STFlash_WriteBlock_def)
qed

lemma poll_returns_iff_status:
  "(WriteBlock_poll dev s \<noteq> None)
     = (\<exists>j. fst (STFlash_readStatus dev (poll_n dev j s)) AND 0x01 = 0)"
proof -
  have "(fst (STFlash_readStatus dev (poll_n dev j s)) AND 0x01 = 0)
          = (\<not> data_out dev (samples s + 8 * j + 7))" for j
    using status_read_busy[of dev j s] by blast
  then show ?thesis
    unfolding poll_returns_iff by simp
qed

text \<open>
  Claim C8. Neither loop has a bound. \<open>STFlash_waitUntilReady\<close> returns exactly when
  some later sampling of \<open>FLASH_DO\<close> reads low, and the status poll of
  \<open>STFlash_WriteBlock\<close> returns exactly when some later status read has bit 0 clear.
  With a device whose line reads high for ever, \<open>STFlash_waitUntilReady\<close>, the poll and
  \<open>STFlash_WriteBlock\<close> of at least one byte never return; with a device whose line
  reads low from some sampling on, all three return.
\<close>

theorem waits_have_no_timeout:
  "(STFlash_waitUntilReady dev s \<noteq> None) = (\<exists>k. \<not> data_out dev (samples s + k))
   \<and> (WriteBlock_poll dev s \<noteq> None)
       = (\<exists>j. fst (STFlash_readStatus dev (poll_n dev j s)) AND 0x01 = 0)
   \<and> ((\<forall>k. data_out dev k) \<longrightarrow>
         STFlash_waitUntilReady dev s = None
       \<and> WriteBlock_poll dev s = None
       \<and> (sz \<noteq> 0 \<longrightarrow> STFlash_WriteBlock dev A buffer sz s = None))
   \<and> ((\<exists>K. \<forall>k\<ge>K. \<not> data_out dev k) \<longrightarrow>
         STFlash_waitUntilReady dev s \<noteq> None
       \<and> WriteBlock_poll dev s \<noteq> None
       \<and> STFlash_WriteBlock dev A buffer sz s \<noteq> None)"
proof (intro conjI impI)
  show "(STFlash_waitUntilReady dev s \<noteq> None) = (\<exists>k. \<not> data_out dev (samples s + k))"
    by (rule waitUntilReady_returns_iff)
  show "(WriteBlock_poll dev s \<noteq> None)
       = (\<exists>j. fst (STFlash_readStatus dev (poll_n dev j s)) AND 0x01 = 0)"
    by (rule poll_returns_iff_status)
next
  assume busy: "\<forall>k. data_out dev k"
  show "STFlash_waitUntilReady dev s = None"
    using waitUntilReady_returns_iff[of dev s] busy by blast
  show "WriteBlock_poll dev s = None"
    using poll_returns_iff[of dev s] busy by blast
  assume "sz \<noteq> 0"
  with busy show "STFlash_WriteBlock dev A buffer sz s = None"
    by (rule WriteBlock_never_returns)
next
  assume "\<exists>K. \<forall>k\<ge>K. \<not> data_out dev k"
  then obtain K where K: "\<forall>k\<ge>K. \<not> data_out dev k" by blast
  then have "\<not> data_out dev (samples s + K)" "\<not> data_out dev (samples s + 8 * K + 7)"
    by simp_all
  then show "STFlash_waitUntilReady dev s \<noteq> None" "WriteBlock_poll dev s \<noteq> None"
    unfolding waitUntilReady_returns_iff poll_returns_iff by blast+
  have "WriteBlock_loop dev 0 A buffer sz s \<noteq> None"
    using WriteBlock_loop_returns[OF K, of 0 sz A buffer s] by simp
  then show "STFlash_WriteBlock dev A buffer sz s \<noteq> None"
    by (auto simp add: STFlash_WriteBlock_def)
qed

theorem waits_have_no_timeout_witness:
  "STFlash_waitUntilReady \<lparr>data_out = \<lambda>k. True, stale = \<lambda>k. 0\<rparr> fresh = None
   \<and> STFlash_WriteBlock \<lparr>data_out = \<lambda>k. True, stale = \<lambda>k. 0\<rparr> 0x100 (\<lambda>i. 0x5A) 1 fresh = None
   \<and> STFlash_waitUntilReady \<lparr>data_out = \<lambda>k. k < 3, stale = \<lambda>k. 0\<rparr> fresh \<noteq> None
   \<and> STFlash_WriteBlock \<lparr>data_out = \<lambda>k. k < 3, stale = \<lambda>k. 0\<rparr> 0x100 (\<lambda>i. 0x5A) 1 fresh
       \<noteq> None"
proof -
  let ?busy = "\<lparr>data_out = \<lambda>k. True, stale = \<lambda>k. 0 :: int8\<rparr>"
  let ?ready = "\<lparr>data_out = \<lambda>k. k < 3, stale = \<lambda>k. 0 :: int8\<rparr>"
  have b: "\<forall>k. data_out ?busy k" by simp
  have "\<forall>k\<ge>3. \<not> data_out ?ready k" by simp
  then have r: "\<exists>K. \<forall>k\<ge>K. \<not> data_out ?ready k" by blast
  have z: "(1 :: int16) \<noteq> 0" by simp
  from waits_have_no_timeout[of ?busy fresh 1 "0x100" "\<lambda>i. 0x5A"] b z
  have "STFlash_waitUntilReady ?busy fresh = None
      \<and> STFlash_WriteBlock ?busy 0x100 (\<lambda>i. 0x5A) 1 fresh = None"
    by blast
  moreover from waits_have_no_timeout[of ?ready fresh 1 "0x100" "\<lambda>i. 0x5A"] r
  have "STFlash_waitUntilReady ?ready fresh \<noteq> None
      \<and> STFlash_WriteBlock ?ready 0x100 (\<lambda>i. 0x5A) 1 fresh \<noteq> None"
    by blast
  ultimately show ?thesis by blast
qed

subsection \<open>The model run on a concrete input\<close>

text \<open>
  The definitions compute. On a bus at rest, \<open>STFlash_Write1Byte 0x012345 0xA5\<close> makes
  the frames \<open>06\<close> and \<open>02 01 23 45 A5\<close>, bit by bit.
\<close>

lemma Write1Byte_frames_example:
  "frames fresh (STFlash_Write1Byte 0x012345 0xA5 fresh)
     = [[False, False, False, False, False, True, True, False],
        [False, False, False, False, False, False, True, False,
         False, False, False, False, False, False, False, True,
         False, False, True, False, False, False, True, True,
         False, True, False, False, False, True, False, True,
         True, False, True, False, False, True, False, True]]"
  by code_simp

end
